theory Spec2Isabelle
  imports Complex_Main "HOL-Library.Word" "HOL-Library.Multiset"
begin

section \<open>Data model of \<^verbatim>\<open>src/app/page.tsx\<close>\<close>

text \<open>
  The component \<^verbatim>\<open>SparseLLM\<close> keeps a layered graph of neurons and connections in
  React state, builds it once in an effect, and animates a forward pass in the async
  function \<^verbatim>\<open>processInput\<close>.

  JavaScript numbers are idealised as \<^typ>\<open>real\<close> (no rounding, no NaN); array
  positions, layer numbers and character codes are \<^typ>\<open>nat\<close>. A JavaScript string is
  a sequence of UTF-16 code units, so the input text is a list of 16-bit words; the ids,
  which the code builds from ASCII template literals, are \<^typ>\<open>string\<close>.
\<close>

type_synonym code_unit = "16 word"
type_synonym js_string = "code_unit list"

record Neuron =
  id_n :: string
  x_n :: real
  y_n :: real
  active_n :: bool
  activation :: real
  layer :: nat

record Connection =
  from_c :: string
  to_c :: string
  weight :: real
  active_c :: bool

text \<open>
  What the code takes from its host: \<^verbatim>\<open>Math.random()\<close> as the stream of its
  successive results (the state of the stream is the number of draws made so far);
  \<^verbatim>\<open>sort(() => Math.random() - 0.5)\<close>, whose comparator is inconsistent, so that the
  order of the result is the engine's choice: started at draw \<open>p\<close> it yields a list and
  the number of the next draw; and \<^verbatim>\<open>String.prototype.toLowerCase\<close>.
\<close>

record env =
  Math_random :: "nat \<Rightarrow> real"
  sort_shuffled :: "nat \<Rightarrow> Neuron list \<Rightarrow> Neuron list \<times> nat"
  toLowerCase :: "js_string \<Rightarrow> js_string"

text \<open>
  The host's guarantees: a draw lies in \<open>[0, 1)\<close>, and sorting permutes its argument.
  Lower-casing does not empty a string either: where a theorem is about the numbers of a
  run it assumes \<open>toLowerCase e text \<noteq> []\<close> for the text of the run, since on an empty
  list of features JavaScript would read \<^verbatim>\<open>undefined\<close> and compute with NaN, which
  \<^typ>\<open>real\<close> does not have.
\<close>

definition random_ok :: "env \<Rightarrow> bool" where
  "random_ok e = (\<forall>n. 0 \<le> Math_random e n \<and> Math_random e n < 1)"

definition sort_ok :: "env \<Rightarrow> bool" where
  "sort_ok e = (\<forall>p xs. mset (fst (sort_shuffled e p xs)) = mset xs)"

section \<open>Topology builder (the first effect)\<close>

text \<open>A non-negative integer in a template literal: its decimal digits.\<close>

definition digit_char :: "nat \<Rightarrow> char" where
  "digit_char d = ''0123456789'' ! d"

fun Number_toString :: "nat \<Rightarrow> string" where
  "Number_toString n =
     (if n < 10 then [digit_char n]
      else Number_toString (n div 10) @ [digit_char (n mod 10)])"

declare Number_toString.simps [simp del]

text \<open>\<^verbatim>\<open>`L${layerIdx}-N${i}`\<close>\<close>

definition neuron_id :: "nat \<Rightarrow> nat \<Rightarrow> string" where
  "neuron_id layerIdx i = ''L'' @ Number_toString layerIdx @ ''-N'' @ Number_toString i"


definition width :: real where
  "width = 1000"

definition height :: real where
  "height = 600"

definition layerSpacing :: "nat list \<Rightarrow> real" where
  "layerSpacing layers = width / (real (length layers) + 1)"

definition verticalSpacing :: "nat \<Rightarrow> real" where
  "verticalSpacing count_l = height / (real count_l + 1)"

definition new_neuron :: "nat list \<Rightarrow> nat \<Rightarrow> nat \<Rightarrow> nat \<Rightarrow> Neuron" where
  "new_neuron layers layerIdx count_l i =
     \<lparr> id_n = neuron_id layerIdx i,
       x_n = layerSpacing layers * (real layerIdx + 1),
       y_n = verticalSpacing count_l * (real i + 1),
       active_n = False,
       activation = 0,
       layer = layerIdx \<rparr>"

text \<open>
  The first \<^verbatim>\<open>layers.forEach\<close>: the neurons are pushed layer by layer, and inside a
  layer by index.
\<close>

definition create_neurons :: "nat list \<Rightarrow> Neuron list" where
  "create_neurons layers =
     concat (map (\<lambda>(layerIdx, count_l). map (new_neuron layers layerIdx count_l) [0..<count_l])
       (enumerate 0 layers))"

text \<open>
  The second \<^verbatim>\<open>layers.forEach\<close>. The state threaded through the loops is the number of
  draws made and \<^verbatim>\<open>connectionList\<close>; \<^verbatim>\<open>push\<close> appends.
\<close>

definition push_connection ::
  "env \<Rightarrow> Neuron \<Rightarrow> Neuron \<Rightarrow> nat \<times> Connection list \<Rightarrow> nat \<times> Connection list" where
  "push_connection e from_n to_n st =
     (case st of (p, connectionList) \<Rightarrow>
        (Suc p,
         connectionList @
           [\<lparr> from_c = id_n from_n, to_c = id_n to_n,
              weight = Math_random e p * 2 - 1, active_c = False \<rparr>]))"

definition connect_neuron ::
  "env \<Rightarrow> Neuron list \<Rightarrow> Neuron \<Rightarrow> nat \<times> Connection list \<Rightarrow> nat \<times> Connection list" where
  "connect_neuron e nextLayer from_n st =
     (case st of (p, connectionList) \<Rightarrow>
        (let k = min 8 (length nextLayer);
             (shuffled, p') = sort_shuffled e p nextLayer;
             targets = take k shuffled
         in fold (push_connection e from_n) targets (p', connectionList)))"

definition connect_layer ::
  "env \<Rightarrow> nat list \<Rightarrow> Neuron list \<Rightarrow> nat \<Rightarrow> nat \<times> Connection list
     \<Rightarrow> nat \<times> Connection list" where
  "connect_layer e layers neuronList layerIdx st =
     (if layerIdx < length layers - 1 then
        (let currentLayer = filter (\<lambda>n. layer n = layerIdx) neuronList;
             nextLayer = filter (\<lambda>n. layer n = layerIdx + 1) neuronList
         in fold (connect_neuron e nextLayer) currentLayer st)
      else st)"

definition create_connections ::
  "env \<Rightarrow> nat list \<Rightarrow> Neuron list \<Rightarrow> nat \<Rightarrow> nat \<times> Connection list" where
  "create_connections e layers neuronList p =
     fold (connect_layer e layers neuronList) [0..<length layers] (p, [])"

section \<open>The forward pass (\<^verbatim>\<open>processInput\<close>)\<close>

text \<open>
  \<^verbatim>\<open>text.toLowerCase().split('').map(c => c.charCodeAt(0))\<close>: splitting at the empty
  string gives one string per code unit, and \<^verbatim>\<open>charCodeAt(0)\<close> reads that unit.
\<close>

definition tokenize :: "env \<Rightarrow> js_string \<Rightarrow> nat list" where
  "tokenize e text = map unat (toLowerCase e text)"

text \<open>
  The characters of a string and their code points, in the words of the specification,
  to compare the tokens with: a lead surrogate followed by a trail surrogate is one
  character beyond the Basic Multilingual Plane, any other code unit is a character by
  itself (as \<^verbatim>\<open>String.prototype.codePointAt\<close> and the string iterator read a string).
  \<open>spec_tokenize\<close> is the specification's tokenization: the code points of the characters
  of the lower-cased text.
\<close>

definition is_lead :: "code_unit \<Rightarrow> bool" where
  "is_lead u = (55296 \<le> unat u \<and> unat u \<le> 56319)"

definition is_trail :: "code_unit \<Rightarrow> bool" where
  "is_trail u = (56320 \<le> unat u \<and> unat u \<le> 57343)"

fun code_points :: "js_string \<Rightarrow> nat list" where
  "code_points [] = []"
| "code_points [u] = [unat u]"
| "code_points (u # v # rest) =
     (if is_lead u \<and> is_trail v
      then ((unat u - 55296) * 1024 + (unat v - 56320) + 65536) # code_points rest
      else unat u # code_points (v # rest))"

fun has_pair :: "js_string \<Rightarrow> bool" where
  "has_pair [] = False"
| "has_pair [u] = False"
| "has_pair (u # v # rest) = ((is_lead u \<and> is_trail v) \<or> has_pair (v # rest))"

definition spec_tokenize :: "env \<Rightarrow> js_string \<Rightarrow> nat list" where
  "spec_tokenize e text = code_points (toLowerCase e text)"

text \<open>
  \<^verbatim>\<open>updatedNeurons\<close> is an array of objects that the steps mutate in place, and
  \<^verbatim>\<open>currentLayerNeurons\<close> (a \<^verbatim>\<open>filter\<close> of it, later sorted) holds the same objects.
  The model keeps the array as the store and an object's position in it as its address:
  a filtered array is the list of the addresses it holds, and a write to an object is an
  update of the store at its address. The same holds for \<^verbatim>\<open>updatedConnections\<close>.
\<close>

definition currentLayerNeurons :: "Neuron list \<Rightarrow> nat \<Rightarrow> nat list" where
  "currentLayerNeurons updatedNeurons layerIdx =
     filter (\<lambda>a. layer (updatedNeurons ! a) = layerIdx) [0..<length updatedNeurons]"

text \<open>Layer 0: the callback of \<^verbatim>\<open>currentLayerNeurons.forEach((neuron, idx) => ...)\<close>.\<close>

definition input_unit ::
  "env \<Rightarrow> real \<Rightarrow> nat list \<Rightarrow> nat \<times> nat \<Rightarrow> nat \<times> Neuron list \<Rightarrow> nat \<times> Neuron list" where
  "input_unit e sparsityLevel features ia st =
     (case (ia, st) of ((idx, a), (p, ns)) \<Rightarrow>
        (let featureVal = real (features ! (idx mod length features)) / 128
         in if Math_random e p > sparsityLevel
            then (p + 2,
                  ns[a := (ns ! a)\<lparr> activation :=
                                     min 1 (featureVal * (1 + Math_random e (p + 1) * 0.5)),
                                   active_n := True \<rparr>])
            else (p + 1, ns[a := (ns ! a)\<lparr> activation := featureVal, active_n := False \<rparr>])))"

definition input_layer ::
  "env \<Rightarrow> real \<Rightarrow> nat list \<Rightarrow> nat \<times> Neuron list \<Rightarrow> nat \<times> Neuron list" where
  "input_layer e sparsityLevel features st =
     fold (input_unit e sparsityLevel features)
       (enumerate 0 (currentLayerNeurons (snd st) 0)) st"

text \<open>
  Layers above 0. \<^verbatim>\<open>updatedNeurons.find(n => n.id === conn.from)\<close> is the first neuron
  with that id, if any.
\<close>

definition fromNeuron :: "Neuron list \<Rightarrow> Connection \<Rightarrow> Neuron option" where
  "fromNeuron ns conn = find (\<lambda>n. id_n n = from_c conn) ns"

definition incomingConns :: "Connection list \<Rightarrow> Neuron \<Rightarrow> nat list" where
  "incomingConns cs neuron = filter (\<lambda>j. to_c (cs ! j) = id_n neuron) [0..<length cs]"

definition add_conn :: "Neuron list \<Rightarrow> nat \<Rightarrow> real \<times> Connection list \<Rightarrow> real \<times> Connection list" where
  "add_conn ns j st =
     (case st of (sum_v, cs) \<Rightarrow>
        (case fromNeuron ns (cs ! j) of
           Some f \<Rightarrow>
             if active_n f
             then (sum_v + activation f * weight (cs ! j), cs[j := (cs ! j)\<lparr> active_c := True \<rparr>])
             else (sum_v, cs)
         | None \<Rightarrow> (sum_v, cs)))"

definition raw_unit :: "nat \<Rightarrow> Neuron list \<times> Connection list \<Rightarrow> Neuron list \<times> Connection list" where
  "raw_unit a st =
     (case st of (ns, cs) \<Rightarrow>
        (let (sum_v, cs') = fold (add_conn ns) (incomingConns cs (ns ! a)) (0, cs)
         in (ns[a := (ns ! a)\<lparr> activation := max 0 sum_v \<rparr>], cs')))"

definition raw_layer :: "nat \<Rightarrow> Neuron list \<times> Connection list \<Rightarrow> Neuron list \<times> Connection list" where
  "raw_layer layerIdx st = fold raw_unit (currentLayerNeurons (fst st) layerIdx) st"

text \<open>
  The top-k gate. \<^verbatim>\<open>sort((a, b) => b.activation - a.activation)\<close> is a stable sort by
  descending activation of the filtered array only; \<^verbatim>\<open>Math.ceil\<close> gives an integer
  that may be compared with any index.
\<close>

definition topk :: "real \<Rightarrow> nat \<Rightarrow> int" where
  "topk sparsityLevel n = \<lceil>real n * (1 - sparsityLevel)\<rceil>"

definition ranking :: "Neuron list \<Rightarrow> nat \<Rightarrow> nat list" where
  "ranking ns layerIdx = sort_key (\<lambda>a. - activation (ns ! a)) (currentLayerNeurons ns layerIdx)"

definition gate_unit :: "int \<Rightarrow> nat \<times> nat \<Rightarrow> Neuron list \<Rightarrow> Neuron list" where
  "gate_unit k ia ns =
     (case ia of (idx, a) \<Rightarrow>
        if int idx < k \<and> activation (ns ! a) > 0.1
        then ns[a := (ns ! a)\<lparr> active_n := True, activation := min 1 (activation (ns ! a)) \<rparr>]
        else ns[a := (ns ! a)\<lparr> active_n := False \<rparr>])"

definition gate_layer :: "real \<Rightarrow> nat \<Rightarrow> Neuron list \<Rightarrow> Neuron list" where
  "gate_layer sparsityLevel layerIdx ns =
     (let k = topk sparsityLevel (length (currentLayerNeurons ns layerIdx))
      in fold (gate_unit k) (enumerate 0 (ranking ns layerIdx)) ns)"

text \<open>One iteration of \<^verbatim>\<open>for (let layerIdx = 0; layerIdx < 6; layerIdx++)\<close>, up to its emission.\<close>

type_synonym snapshot = "Neuron list \<times> Connection list"

definition layer_step ::
  "env \<Rightarrow> real \<Rightarrow> nat list \<Rightarrow> nat \<Rightarrow> nat \<times> snapshot \<Rightarrow> nat \<times> snapshot" where
  "layer_step e sparsityLevel features layerIdx st =
     (case st of (p, ns, cs) \<Rightarrow>
        if layerIdx = 0 then
          (let (p', ns') = input_layer e sparsityLevel features (p, ns) in (p', ns', cs))
        else
          (let (ns', cs') = raw_layer layerIdx (ns, cs)
           in (p, gate_layer sparsityLevel layerIdx ns', cs')))"

section \<open>The component's state, its renders and the suspended calls\<close>

text \<open>
  \<^verbatim>\<open>useState\<close> (lines 23 to 28): a render reads the state that React holds into
  constants, and the \<^verbatim>\<open>processInput\<close> that the render creates closes over these
  constants. A setter changes what React holds; the constants of the handler in place
  change only with the next render. So the component is, besides the number of draws
  made from \<^verbatim>\<open>Math.random\<close>:
  \<^item> \<open>neurons\<close>, \<open>connections\<close>, \<open>sparsityLevel\<close>, \<open>isProcessing\<close>, \<open>stats\<close>: the constants of
    the latest render, which a call of \<^verbatim>\<open>processInput\<close> reads;
  \<^item> \<open>set_neurons\<close>, \<open>set_connections\<close>, \<open>set_isProcessing\<close>, \<open>set_stats\<close>: the values last
    given to the setters, which the next render will read (no event of the model moves
    the slider, so \<open>sparsityLevel\<close> has no second field);
  \<^item> \<open>pending\<close>: the calls of \<^verbatim>\<open>processInput\<close> made so far, each suspended at an
    \<^verbatim>\<open>await\<close> (its local variables, with the \<^verbatim>\<open>sparsityLevel\<close> its closure captured) or
    returned (\<open>None\<close>). A call keeps its position in this list.
  \<^verbatim>\<open>stats.sparsity\<close> is \<open>None\<close> where \<^verbatim>\<open>Math.round\<close> is applied to \<open>0 / 0\<close>.
\<close>

record Stats =
  active_s :: nat
  total_s :: nat
  sparsity_s :: "int option"

record suspended =
  features_k :: "nat list"
  updatedNeurons_k :: "Neuron list"
  updatedConnections_k :: "Connection list"
  layerIdx_k :: nat
  sparsityLevel_k :: real

record world =
  neurons :: "Neuron list"
  connections :: "Connection list"
  sparsityLevel :: real
  isProcessing :: bool
  stats :: Stats
  set_neurons :: "Neuron list"
  set_connections :: "Connection list"
  set_isProcessing :: bool
  set_stats :: Stats
  draws :: nat
  pending :: "suspended option list"

text \<open>A render: the constants become what React holds.\<close>

definition render :: "world \<Rightarrow> world" where
  "render w =
     w\<lparr> neurons := set_neurons w, connections := set_connections w,
        isProcessing := set_isProcessing w, stats := set_stats w \<rparr>"

text \<open>
  The state at the first render, and the first effect run on it: it builds the network
  and gives it to \<^verbatim>\<open>setNeurons\<close> and \<^verbatim>\<open>setConnections\<close>.
\<close>

definition first_render :: world where
  "first_render =
     \<lparr> neurons = [], connections = [], sparsityLevel = 0.85, isProcessing = False,
       stats = \<lparr> active_s = 0, total_s = 0, sparsity_s = Some 0 \<rparr>,
       set_neurons = [], set_connections = [], set_isProcessing = False,
       set_stats = \<lparr> active_s = 0, total_s = 0, sparsity_s = Some 0 \<rparr>,
       draws = 0, pending = [] \<rparr>"

definition init_network :: "env \<Rightarrow> nat list \<Rightarrow> world \<Rightarrow> world" where
  "init_network e layers w =
     (let neuronList = create_neurons layers;
          (p, connectionList) = create_connections e layers neuronList (draws w)
      in w\<lparr> set_neurons := neuronList, set_connections := connectionList, draws := p \<rparr>)"

text \<open>
  \<^verbatim>\<open>processInput\<close> from its call to its first \<^verbatim>\<open>await\<close>: the guard, which tests the
  \<^verbatim>\<open>isProcessing\<close> of the render that made the handler, then \<^verbatim>\<open>setIsProcessing(true)\<close>,
  the tokens, the reset of every neuron and connection of that render, and
  \<^verbatim>\<open>setNeurons\<close>, \<^verbatim>\<open>setConnections\<close> of the reset state. The second component of the
  result lists the snapshots emitted.
\<close>

definition reset_neurons :: "Neuron list \<Rightarrow> Neuron list" where
  "reset_neurons ns = map (\<lambda>n. n\<lparr> active_n := False, activation := 0 \<rparr>) ns"

definition reset_connections :: "Connection list \<Rightarrow> Connection list" where
  "reset_connections cs = map (\<lambda>c. c\<lparr> active_c := False \<rparr>) cs"

definition submit :: "env \<Rightarrow> js_string \<Rightarrow> world \<Rightarrow> world \<times> snapshot list" where
  "submit e text w =
     (if text = [] \<or> isProcessing w then (w, [])
      else
        (let features = tokenize e text;
             updatedNeurons = reset_neurons (neurons w);
             updatedConnections = reset_connections (connections w)
         in (w\<lparr> set_isProcessing := True,
                set_neurons := updatedNeurons,
                set_connections := updatedConnections,
                pending := pending w @
                  [Some \<lparr> features_k = features,
                          updatedNeurons_k = updatedNeurons,
                          updatedConnections_k = updatedConnections,
                          layerIdx_k = 0,
                          sparsityLevel_k = sparsityLevel w \<rparr>] \<rparr>,
             [])))"

text \<open>
  The \<open>i\<close>-th call resumed after its timeout: one iteration of the loop up to its
  \<^verbatim>\<open>await\<close>, emitting the layer's snapshot; or, once \<^verbatim>\<open>layerIdx < 6\<close> fails, the
  statistics and \<^verbatim>\<open>setIsProcessing(false)\<close>, after which the call has returned.
\<close>

definition final_stats :: "Neuron list \<Rightarrow> Stats" where
  "final_stats ns =
     (let activeCount = length (filter active_n ns);
          totalCount = length ns;
          actualSparsity = 1 - real activeCount / real totalCount
      in \<lparr> active_s = activeCount, total_s = totalCount,
           sparsity_s = (if totalCount = 0 then None
                         else Some \<lfloor>actualSparsity * 100 + 1 / 2\<rfloor>) \<rparr>)"

definition resume :: "env \<Rightarrow> nat \<Rightarrow> world \<Rightarrow> world \<times> snapshot list" where
  "resume e i w =
     (if i < length (pending w) then
        (case pending w ! i of
           None \<Rightarrow> (w, [])
         | Some k \<Rightarrow>
             if layerIdx_k k < 6 then
               (case layer_step e (sparsityLevel_k k) (features_k k) (layerIdx_k k)
                       (draws w, updatedNeurons_k k, updatedConnections_k k) of
                  (p, ns, cs) \<Rightarrow>
                    (w\<lparr> set_neurons := ns, set_connections := cs, draws := p,
                        pending := (pending w)
                          [i := Some (k\<lparr> updatedNeurons_k := ns, updatedConnections_k := cs,
                                          layerIdx_k := layerIdx_k k + 1 \<rparr>)] \<rparr>,
                     [(ns, cs)]))
             else
               (w\<lparr> set_stats := final_stats (updatedNeurons_k k), set_isProcessing := False,
                   pending := (pending w)[i := None] \<rparr>, []))
      else (w, []))"

text \<open>
  What can happen to the component: a call of the handler in place, the timeout of a
  suspended call, a render.
\<close>

datatype event = Submit js_string | Resume nat | Render

fun step :: "env \<Rightarrow> event \<Rightarrow> world \<Rightarrow> world \<times> snapshot list" where
  "step e (Submit text) w = submit e text w"
| "step e (Resume i) w = resume e i w"
| "step e Render w = (render w, [])"

fun exec :: "env \<Rightarrow> event list \<Rightarrow> world \<Rightarrow> world \<times> snapshot list" where
  "exec e [] w = (w, [])"
| "exec e (ev # evs) w =
     (case step e ev w of (w', out) \<Rightarrow>
        (case exec e evs w' of (w'', outs) \<Rightarrow> (w'', out @ outs)))"

text \<open>
  One call of \<^verbatim>\<open>processInput\<close> run to its end with nothing in between: the call, the
  six iterations, and the tail after the loop. The call is the next of the list.
\<close>

definition processInput :: "env \<Rightarrow> js_string \<Rightarrow> world \<Rightarrow> world \<times> snapshot list" where
  "processInput e text w =
     exec e (Submit text # replicate 7 (Resume (length (pending w)))) w"

text \<open>
  The states a run goes through: the reset state it starts from, then its snapshots.
  The state before the snapshot of layer \<open>l\<close> is at position \<open>l\<close>, the snapshot at
  \<open>l + 1\<close>.
\<close>

definition reset_state :: "world \<Rightarrow> snapshot" where
  "reset_state w = (reset_neurons (neurons w), reset_connections (connections w))"

definition run_states :: "env \<Rightarrow> js_string \<Rightarrow> world \<Rightarrow> snapshot list" where
  "run_states e text w = reset_state w # snd (processInput e text w)"




text \<open>
  The layers \<open>l, l + 1, ...\<close> processed in this order, \<open>n\<close> of them: the states after
  each.
\<close>

fun forward ::
  "env \<Rightarrow> real \<Rightarrow> nat list \<Rightarrow> nat \<Rightarrow> nat \<Rightarrow> nat \<times> snapshot \<Rightarrow> (nat \<times> snapshot) list" where
  "forward e s fs l 0 st = []"
| "forward e s fs l (Suc n) st =
     layer_step e s fs l st # forward e s fs (Suc l) n (layer_step e s fs l st)"

section \<open>What a step does to one object\<close>

text \<open>
  The effect of the three \<^verbatim>\<open>forEach\<close> callbacks on the object they are called with,
  and the number of the draw that decides the gate of the \<open>i\<close>-th input unit when the
  layer starts at draw \<open>p\<close>: a unit takes one draw, and a second one if it became active.
\<close>

definition input_result :: "env \<Rightarrow> real \<Rightarrow> nat list \<Rightarrow> nat \<Rightarrow> nat \<Rightarrow> Neuron \<Rightarrow> Neuron" where
  "input_result e s fs q idx neuron =
     (if Math_random e q > s
      then neuron\<lparr> activation :=
                     min 1 (real (fs ! (idx mod length fs)) / 128 * (1 + Math_random e (q + 1) * 0.5)),
                   active_n := True \<rparr>
      else neuron\<lparr> activation := real (fs ! (idx mod length fs)) / 128, active_n := False \<rparr>)"

fun draw_pos :: "env \<Rightarrow> real \<Rightarrow> nat \<Rightarrow> nat \<Rightarrow> nat" where
  "draw_pos e s p 0 = p"
| "draw_pos e s p (Suc i) =
     (if Math_random e (draw_pos e s p i) > s then draw_pos e s p i + 2
      else draw_pos e s p i + 1)"

definition gate_result :: "int \<Rightarrow> nat \<Rightarrow> Neuron \<Rightarrow> Neuron" where
  "gate_result k idx neuron =
     (if int idx < k \<and> activation neuron > 0.1
      then neuron\<lparr> active_n := True, activation := min 1 (activation neuron) \<rparr>
      else neuron\<lparr> active_n := False \<rparr>)"

text \<open>
  The input that a unit sums: over its incoming connections whose source is active, the
  source's activation times the weight.
\<close>

definition src_active :: "Neuron list \<Rightarrow> Connection \<Rightarrow> bool" where
  "src_active ns c = (case fromNeuron ns c of Some f \<Rightarrow> active_n f | None \<Rightarrow> False)"

definition contribution :: "Neuron list \<Rightarrow> Connection \<Rightarrow> real" where
  "contribution ns c = (case fromNeuron ns c of Some f \<Rightarrow> activation f * weight c | None \<Rightarrow> 0)"

definition weighted_input :: "Neuron list \<Rightarrow> Connection list \<Rightarrow> Neuron \<Rightarrow> real" where
  "weighted_input ns cs neuron =
     sum_list (map (contribution ns)
       (filter (src_active ns) (filter (\<lambda>c. to_c c = id_n neuron) cs)))"

section \<open>Well-formed topologies\<close>

text \<open>
  Ids name neurons uniquely, and every connection leads from a neuron to a neuron of the
  next layer.
\<close>

definition adjacent :: "Neuron list \<Rightarrow> Connection \<Rightarrow> bool" where
  "adjacent ns c =
     list_ex (\<lambda>f. id_n f = from_c c \<and> list_ex (\<lambda>t. id_n t = to_c c \<and> layer t = layer f + 1) ns) ns"

definition wf_topology :: "Neuron list \<Rightarrow> Connection list \<Rightarrow> bool" where
  "wf_topology ns cs = (distinct (map id_n ns) \<and> list_all (adjacent ns) cs)"

section \<open>The state of the builder's loops\<close>

text \<open>
  The builder goes through the layers, and in a layer through its units. When it is at
  unit \<open>m\<close> of layer \<open>li\<close>, the units before it are processed; every connection pushed so
  far leads from a processed unit to a unit of the next layer, with a weight between -1
  and 1; and every processed unit has its full set of outgoing connections.
\<close>

definition processed :: "nat \<Rightarrow> nat \<Rightarrow> nat \<Rightarrow> nat \<Rightarrow> bool" where
  "processed li m l i = (l < li \<or> (l = li \<and> i < m))"

definition built_edge :: "nat list \<Rightarrow> nat \<Rightarrow> nat \<Rightarrow> Connection \<Rightarrow> bool" where
  "built_edge layers li m c =
     (\<exists>l i i'. processed li m l i \<and> Suc l < length layers \<and> i < layers ! l \<and>
        i' < layers ! Suc l \<and> from_c c = neuron_id l i \<and> to_c c = neuron_id (Suc l) i' \<and>
        - 1 \<le> weight c \<and> weight c \<le> 1 \<and> \<not> active_c c)"

definition out_degree_ok :: "nat list \<Rightarrow> Connection list \<Rightarrow> nat \<Rightarrow> nat \<Rightarrow> bool" where
  "out_degree_ok layers cl l i =
     (length (filter (\<lambda>c. from_c c = neuron_id l i) cl) = min 8 (layers ! Suc l) \<and>
      distinct (map to_c (filter (\<lambda>c. from_c c = neuron_id l i) cl)))"

definition topo_inv :: "nat list \<Rightarrow> nat \<Rightarrow> nat \<Rightarrow> Connection list \<Rightarrow> bool" where
  "topo_inv layers li m cl =
     ((\<forall>c\<in>set cl. built_edge layers li m c) \<and>
      (\<forall>l i. processed li m l i \<and> Suc l < length layers \<and> i < layers ! l \<longrightarrow>
         out_degree_ok layers cl l i))"

section \<open>A small example\<close>

text \<open>
  Two layers of two neurons; draws alternate between \<open>9/10\<close> and \<open>1/2\<close>; the engine's
  sort reverses and uses as many draws as the list is long; the text is \<open>Ab\<close>, and
  lower-casing is that of ASCII.
\<close>

definition ascii_lower :: "js_string \<Rightarrow> js_string" where
  "ascii_lower text = map (\<lambda>c. if 65 \<le> unat c \<and> unat c \<le> 90 then c + 32 else c) text"

definition ex_env :: env where
  "ex_env =
     \<lparr> Math_random = (\<lambda>n. if even n then 9 / 10 else 1 / 2),
       sort_shuffled = (\<lambda>p xs. (rev xs, p + length xs)),
       toLowerCase = ascii_lower \<rparr>"

definition ex_text :: js_string where
  "ex_text = [65, 98]"

definition ex_world :: world where
  "ex_world = (render (init_network ex_env [2, 2] first_render))\<lparr> sparsityLevel := 0 \<rparr>"

text \<open>
  The same with every draw \<open>9/10\<close>, so that every weight is \<open>4/5\<close>, and with half of each
  layer to stay inactive.
\<close>

definition ex_env2 :: env where
  "ex_env2 = ex_env\<lparr> Math_random := (\<lambda>n. 9 / 10) \<rparr>"

definition ex_world2 :: world where
  "ex_world2 = (render (init_network ex_env2 [2, 2] first_render))\<lparr> sparsityLevel := 1 / 2 \<rparr>"

text \<open>One character beyond the Basic Multilingual Plane, U+1F600, as JavaScript holds it.\<close>

definition ex_astral :: js_string where
  "ex_astral = [55357, 56832]"

section \<open>Tokenization\<close>

lemma code_points_no_pair: "\<not> has_pair s \<Longrightarrow> code_points s = map unat s"
  by (induction s rule: code_points.induct) auto

lemma code_points_length: "length (code_points s) \<le> length s"
  by (induction s rule: code_points.induct) auto

lemma code_points_pair: "has_pair s \<Longrightarrow> length (code_points s) < length s"
proof (induction s rule: code_points.induct)
  case 1
  then show ?case by simp
next
  case (2 u)
  then show ?case by simp
next
  case (3 u v rest)
  show ?case
  proof (cases "is_lead u \<and> is_trail v")
    case True
    then show ?thesis
      using code_points_length [of rest] by simp
  next
    case False
    then have "has_pair (v # rest)"
      using "3.prems" by auto
    then have "length (code_points (v # rest)) < length (v # rest)"
      using "3.IH"(2) False by blast
    then show ?thesis
      using False by auto
  qed
qed

lemma ex_lower_astral: "toLowerCase ex_env ex_astral = ex_astral"
  by (simp add: ex_env_def ex_astral_def ascii_lower_def)

text \<open>
  Claim C8, as stated: one feature per character of the input, the character's code
  point, after lower-casing. It fails for a character beyond the Basic Multilingual
  Plane: the one character U+1F600 gives two features, its two surrogates.
\<close>

theorem tokenize_code_points_counterexample:
  "length (code_points ex_astral) = 1 \<and>
   spec_tokenize ex_env ex_astral = [128512] \<and>
   tokenize ex_env ex_astral = [55357, 56832] \<and>
   tokenize ex_env ex_astral \<noteq> spec_tokenize ex_env ex_astral"
  by (simp add: tokenize_def spec_tokenize_def ex_lower_astral)
    (simp add: ex_astral_def is_lead_def is_trail_def)

text \<open>
  Claim C8, amended. For every input text, tokenization yields one integer feature per
  UTF-16 code unit of the lower-cased text, the code of that unit; these are the code
  points of the characters of the lower-cased text, one each, exactly when the
  lower-cased text has no surrogate pair.
\<close>

theorem tokenize_code_units:
  "length (tokenize e text) = length (toLowerCase e text) \<and>
   (\<forall>i < length (toLowerCase e text). tokenize e text ! i = unat (toLowerCase e text ! i)) \<and>
   (tokenize e text = spec_tokenize e text) = (\<not> has_pair (toLowerCase e text))"
proof -
  have "tokenize e text = spec_tokenize e text" if "\<not> has_pair (toLowerCase e text)"
    using code_points_no_pair [OF that] by (simp add: tokenize_def spec_tokenize_def)
  moreover have "tokenize e text \<noteq> spec_tokenize e text" if "has_pair (toLowerCase e text)"
  proof
    assume "tokenize e text = spec_tokenize e text"
    then have "length (code_points (toLowerCase e text)) = length (toLowerCase e text)"
      by (metis length_map tokenize_def spec_tokenize_def)
    then show False
      using code_points_pair [OF that] by simp
  qed
  ultimately show ?thesis
    by (auto simp: tokenize_def)
qed

theorem tokenize_code_units_witness:
  "\<not> has_pair (toLowerCase ex_env ex_text) \<and>
   length (tokenize ex_env ex_text) = 2 \<and> tokenize ex_env ex_text ! 0 = 97 \<and>
   tokenize ex_env ex_text ! 1 = 98 \<and>
   tokenize ex_env ex_text = spec_tokenize ex_env ex_text"
proof -
  have l: "toLowerCase ex_env ex_text = [97, 98]"
    by (simp add: ex_env_def ex_text_def ascii_lower_def)
  have h: "\<not> has_pair (toLowerCase ex_env ex_text)"
    by (simp add: l is_lead_def)
  have t: "length (tokenize ex_env ex_text) = 2 \<and> tokenize ex_env ex_text ! 0 = 97 \<and>
   tokenize ex_env ex_text ! 1 = 98"
    by (simp add: tokenize_def l)
  from tokenize_code_units [of ex_env ex_text]
  show ?thesis
    using h t by blast
qed

section \<open>Calls, renders and re-entrancy\<close>

lemma exec_append:
  "exec e (evs @ evs') w =
     (case exec e evs w of (w', out) \<Rightarrow>
        (case exec e evs' w' of (w'', outs) \<Rightarrow> (w'', out @ outs)))"
  by (induction evs arbitrary: w) (auto split: prod.splits)










lemma ex_world_idle: "\<not> isProcessing ex_world"
  by code_simp

lemma ex_text_nonempty: "ex_text \<noteq> []"
  by (simp add: ex_text_def)

lemma ex_random_ok: "random_ok ex_env"
  by (simp add: random_ok_def ex_env_def)

lemma ex_lower_nonempty: "toLowerCase ex_env ex_text \<noteq> []"
  by (simp add: ex_env_def ex_text_def ascii_lower_def)

lemma ex_sparsity: "sparsityLevel ex_world \<le> 1"
  by code_simp

lemma ex_world_wf: "wf_topology (neurons ex_world) (connections ex_world)"
  by code_simp




lemma exec_resumes:
  "i < length (pending w) \<Longrightarrow> pending w ! i = Some k \<Longrightarrow> layerIdx_k k + n \<le> 6 \<Longrightarrow>
   snd (exec e (replicate n (Resume i)) w) =
     map snd (forward e (sparsityLevel_k k) (features_k k) (layerIdx_k k) n
                (draws w, updatedNeurons_k k, updatedConnections_k k)) \<and>
   (\<exists>k'. i < length (pending (fst (exec e (replicate n (Resume i)) w))) \<and>
         pending (fst (exec e (replicate n (Resume i)) w)) ! i = Some k' \<and>
         layerIdx_k k' = layerIdx_k k + n)"
proof (induction n arbitrary: w k)
  case 0
  then show ?case by simp
next
  case (Suc n)
  obtain p ns cs where st: "layer_step e (sparsityLevel_k k) (features_k k) (layerIdx_k k)
      (draws w, updatedNeurons_k k, updatedConnections_k k) = (p, ns, cs)"
    by (cases "layer_step e (sparsityLevel_k k) (features_k k) (layerIdx_k k)
      (draws w, updatedNeurons_k k, updatedConnections_k k)") auto
  define k' where "k' = k\<lparr> updatedNeurons_k := ns, updatedConnections_k := cs,
                                         layerIdx_k := layerIdx_k k + 1 \<rparr>"
  define w' where "w' = w\<lparr> set_neurons := ns, set_connections := cs, draws := p,
                           pending := (pending w)[i := Some k'] \<rparr>"
  have r: "resume e i w = (w', [(ns, cs)])"
    using Suc.prems st by (simp add: resume_def w'_def k'_def)
  have il: "i < length (pending w')" and pk: "pending w' ! i = Some k'"
    and le: "layerIdx_k k' + n \<le> 6"
    using Suc.prems by (simp_all add: w'_def k'_def)
  note ih = Suc.IH [OF il pk le]
  have eqs: "sparsityLevel_k k' = sparsityLevel_k k" "features_k k' = features_k k"
    "layerIdx_k k' = Suc (layerIdx_k k)" "draws w' = p" "updatedNeurons_k k' = ns"
    "updatedConnections_k k' = cs"
    by (simp_all add: w'_def k'_def)
  obtain w'' outs where x: "exec e (replicate n (Resume i)) w' = (w'', outs)"
    by (cases "exec e (replicate n (Resume i)) w'") auto
  have "exec e (replicate (Suc n) (Resume i)) w = (w'', (ns, cs) # outs)"
    using r x by simp
  then show ?case
    using ih x st by (simp add: eqs)
qed

lemma processInput_snapshots:
  assumes "text \<noteq> []" and "\<not> isProcessing w"
  shows "snd (processInput e text w) =
           map snd (forward e (sparsityLevel w) (tokenize e text) 0 6 (draws w, reset_state w))"
proof -
  define i where "i = length (pending w)"
  define k where "k = \<lparr> features_k = tokenize e text,
                                   updatedNeurons_k = reset_neurons (neurons w),
                                   updatedConnections_k = reset_connections (connections w),
                                   layerIdx_k = 0,
                                   sparsityLevel_k = sparsityLevel w \<rparr>"
  define w1 where "w1 = w\<lparr> set_isProcessing := True,
                set_neurons := reset_neurons (neurons w),
                set_connections := reset_connections (connections w),
                pending := pending w @ [Some k]\<rparr>"
  have s: "submit e text w = (w1, [])"
    using assms by (simp add: submit_def w1_def k_def Let_def)
  have il: "i < length (pending w1)" and pk: "pending w1 ! i = Some k"
    and le: "layerIdx_k k + 6 \<le> 6"
    by (simp_all add: w1_def k_def i_def)
  note six = exec_resumes [OF il pk le, of e]
  obtain w2 out where x: "exec e (replicate 6 (Resume i)) w1 = (w2, out)"
    by (cases "exec e (replicate 6 (Resume i)) w1") auto
  have out: "out = map snd (forward e (sparsityLevel w) (tokenize e text) 0 6 (draws w, reset_state w))"
    using six x by (simp add: w1_def k_def reset_state_def)
  obtain k2 where p2: "i < length (pending w2)" "pending w2 ! i = Some k2" "layerIdx_k k2 = 6"
    using six x by (auto simp: k_def)
  have fin: "snd (resume e i w2) = []"
    using p2 by (simp add: resume_def)
  have seven: "replicate 7 (Resume i) = replicate 6 (Resume i) @ [Resume i]"
    unfolding replicate_append_same by (simp add: numeral_eq_Suc)
  have "exec e (replicate 7 (Resume i)) w1 = (fst (resume e i w2), out)"
    unfolding seven using x fin by (auto simp: exec_append split: prod.splits)
  then show ?thesis
    using s out by (simp add: processInput_def i_def)
qed

lemma forward_length: "length (forward e s fs l n st) = n"
  by (induction n arbitrary: l st) simp_all

lemma processInput_length:
  assumes "text \<noteq> []" and "\<not> isProcessing w"
  shows "length (snd (processInput e text w)) = 6"
  using processInput_snapshots [OF assms, of e] by (simp add: forward_length)



section \<open>The loops over the objects of a layer\<close>

lemma gate_unit_eq: "gate_unit k (idx, a) ns = ns[a := gate_result k idx (ns ! a)]"
  by (simp add: gate_unit_def gate_result_def)

lemma gate_fold:
  assumes "distinct xs" and "\<forall>a\<in>set xs. a < length ns"
  shows "length (fold (gate_unit k) (enumerate n xs) ns) = length ns \<and>
         (\<forall>a. a \<notin> set xs \<longrightarrow> fold (gate_unit k) (enumerate n xs) ns ! a = ns ! a) \<and>
         (\<forall>i<length xs. fold (gate_unit k) (enumerate n xs) ns ! (xs ! i) =
                          gate_result k (n + i) (ns ! (xs ! i)))"
  using assms
proof (induction xs rule: rev_induct)
  case Nil
  then show ?case by simp
next
  case (snoc x xs)
  let ?G = "fold (gate_unit k) (enumerate n xs) ns"
  have ih: "length ?G = length ns" "\<And>a. a \<notin> set xs \<Longrightarrow> ?G ! a = ns ! a"
    "\<And>i. i < length xs \<Longrightarrow> ?G ! (xs ! i) = gate_result k (n + i) (ns ! (xs ! i))"
    using snoc by auto
  have x: "x \<notin> set xs" "x < length ns"
    using snoc.prems by auto
  have unfold: "fold (gate_unit k) (enumerate n (xs @ [x])) ns =
                ?G[x := gate_result k (n + length xs) (ns ! x)]"
    using ih(2) [OF x(1)] by (simp add: enumerate_append_eq gate_unit_eq)
  show ?case
    unfolding unfold
  proof (intro conjI allI impI)
    show "length (?G[x := gate_result k (n + length xs) (ns ! x)]) = length ns"
      using ih(1) by simp
  next
    fix a assume "a \<notin> set (xs @ [x])"
    then show "?G[x := gate_result k (n + length xs) (ns ! x)] ! a = ns ! a"
      using ih(2) by simp
  next
    fix i assume i: "i < length (xs @ [x])"
    show "?G[x := gate_result k (n + length xs) (ns ! x)] ! ((xs @ [x]) ! i) =
          gate_result k (n + i) (ns ! ((xs @ [x]) ! i))"
    proof (cases "i < length xs")
      case True
      then have "xs ! i \<noteq> x" using x(1) by auto
      then show ?thesis using True ih(3) by (simp add: nth_append)
    next
      case False
      then have "i = length xs" using i by simp
      then show ?thesis using x(2) ih(1) by simp
    qed
  qed
qed

lemma input_unit_eq:
  "input_unit e s fs (idx, a) (p, ns) =
     (draw_pos e s p 1, ns[a := input_result e s fs p idx (ns ! a)])"
  by (simp add: input_unit_def input_result_def Let_def)

lemma input_fold:
  assumes "distinct xs" and "\<forall>a\<in>set xs. a < length ns"
  shows "fst (fold (input_unit e s fs) (enumerate n xs) (p, ns)) = draw_pos e s p (length xs) \<and>
         length (snd (fold (input_unit e s fs) (enumerate n xs) (p, ns))) = length ns \<and>
         (\<forall>a. a \<notin> set xs \<longrightarrow> snd (fold (input_unit e s fs) (enumerate n xs) (p, ns)) ! a = ns ! a) \<and>
         (\<forall>i<length xs. snd (fold (input_unit e s fs) (enumerate n xs) (p, ns)) ! (xs ! i) =
                          input_result e s fs (draw_pos e s p i) (n + i) (ns ! (xs ! i)))"
  using assms
proof (induction xs rule: rev_induct)
  case Nil
  then show ?case by simp
next
  case (snoc x xs)
  obtain q ms where F: "fold (input_unit e s fs) (enumerate n xs) (p, ns) = (q, ms)"
    by (cases "fold (input_unit e s fs) (enumerate n xs) (p, ns)") auto
  have ih: "q = draw_pos e s p (length xs)" "length ms = length ns"
    "\<And>a. a \<notin> set xs \<Longrightarrow> ms ! a = ns ! a"
    "\<And>i. i < length xs \<Longrightarrow> ms ! (xs ! i) = input_result e s fs (draw_pos e s p i) (n + i) (ns ! (xs ! i))"
    using snoc F by auto
  have x: "x \<notin> set xs" "x < length ns"
    using snoc.prems by auto
  have unfold: "fold (input_unit e s fs) (enumerate n (xs @ [x])) (p, ns) =
                (draw_pos e s p (Suc (length xs)),
                 ms[x := input_result e s fs (draw_pos e s p (length xs)) (n + length xs) (ns ! x)])"
    using ih(3) [OF x(1)] F ih(1) by (simp add: enumerate_append_eq input_unit_eq)
  show ?case
    unfolding unfold fst_conv snd_conv
  proof (intro conjI allI impI)
    show "draw_pos e s p (Suc (length xs)) = draw_pos e s p (length (xs @ [x]))"
      by simp
  next
    show "length (ms[x := input_result e s fs (draw_pos e s p (length xs)) (n + length xs) (ns ! x)]) = length ns"
      using ih(2) by simp
  next
    fix a assume "a \<notin> set (xs @ [x])"
    then show "ms[x := input_result e s fs (draw_pos e s p (length xs)) (n + length xs) (ns ! x)] ! a = ns ! a"
      using ih(3) by simp
  next
    fix i assume i: "i < length (xs @ [x])"
    show "ms[x := input_result e s fs (draw_pos e s p (length xs)) (n + length xs) (ns ! x)] ! ((xs @ [x]) ! i) =
          input_result e s fs (draw_pos e s p i) (n + i) (ns ! ((xs @ [x]) ! i))"
    proof (cases "i < length xs")
      case True
      then have "xs ! i \<noteq> x" using x(1) by auto
      then show ?thesis using True ih(4) by (simp add: nth_append)
    next
      case False
      then have "i = length xs" using i by simp
      then show ?thesis using x(2) ih(2) by simp
    qed
  qed
qed

lemma currentLayerNeurons_props:
  "distinct (currentLayerNeurons ns l)"
  "a \<in> set (currentLayerNeurons ns l) \<longleftrightarrow> a < length ns \<and> layer (ns ! a) = l"
  by (auto simp: currentLayerNeurons_def)

lemma map_update_same:
  assumes "f y = f (xs ! a)"
  shows "map f (xs[a := y]) = map f xs"
proof (cases "a < length xs")
  case True
  with assms show ?thesis by (simp add: map_update list_update_same_conv)
next
  case False
  then show ?thesis by (simp add: list_update_beyond)
qed

lemma ranking_props:
  "distinct (ranking ns l)"
  "set (ranking ns l) = set (currentLayerNeurons ns l)"
  "length (ranking ns l) = length (currentLayerNeurons ns l)"
  by (simp_all add: ranking_def currentLayerNeurons_props)

lemma gate_layer_props:
  "length (gate_layer s l ns) = length ns"
  "a \<notin> set (currentLayerNeurons ns l) \<Longrightarrow> gate_layer s l ns ! a = ns ! a"
  "i < length (ranking ns l) \<Longrightarrow>
     gate_layer s l ns ! (ranking ns l ! i) =
       gate_result (topk s (length (currentLayerNeurons ns l))) i (ns ! (ranking ns l ! i))"
proof -
  have b: "\<forall>a\<in>set (ranking ns l). a < length ns"
    by (simp add: ranking_props currentLayerNeurons_props)
  note g = gate_fold [OF ranking_props(1) b, of "topk s (length (currentLayerNeurons ns l))" 0]
  show "length (gate_layer s l ns) = length ns"
    using g by (simp add: gate_layer_def Let_def)
  show "a \<notin> set (currentLayerNeurons ns l) \<Longrightarrow> gate_layer s l ns ! a = ns ! a"
    using g by (simp add: gate_layer_def Let_def ranking_props)
  show "i < length (ranking ns l) \<Longrightarrow>
     gate_layer s l ns ! (ranking ns l ! i) =
       gate_result (topk s (length (currentLayerNeurons ns l))) i (ns ! (ranking ns l ! i))"
    using g by (simp add: gate_layer_def Let_def)
qed

lemma input_layer_props:
  "fst (input_layer e s fs (p, ns)) = draw_pos e s p (length (currentLayerNeurons ns 0))"
  "length (snd (input_layer e s fs (p, ns))) = length ns"
  "a \<notin> set (currentLayerNeurons ns 0) \<Longrightarrow> snd (input_layer e s fs (p, ns)) ! a = ns ! a"
  "i < length (currentLayerNeurons ns 0) \<Longrightarrow>
     snd (input_layer e s fs (p, ns)) ! (currentLayerNeurons ns 0 ! i) =
       input_result e s fs (draw_pos e s p i) i (ns ! (currentLayerNeurons ns 0 ! i))"
proof -
  have b: "\<forall>a\<in>set (currentLayerNeurons ns 0). a < length ns"
    by (simp add: currentLayerNeurons_props)
  note g = input_fold [OF currentLayerNeurons_props(1) b, of e s fs 0 p]
  show "fst (input_layer e s fs (p, ns)) = draw_pos e s p (length (currentLayerNeurons ns 0))"
    using g by (simp add: input_layer_def)
  show "length (snd (input_layer e s fs (p, ns))) = length ns"
    using g by (simp add: input_layer_def)
  show "a \<notin> set (currentLayerNeurons ns 0) \<Longrightarrow> snd (input_layer e s fs (p, ns)) ! a = ns ! a"
    using g by (simp add: input_layer_def)
  show "i < length (currentLayerNeurons ns 0) \<Longrightarrow>
     snd (input_layer e s fs (p, ns)) ! (currentLayerNeurons ns 0 ! i) =
       input_result e s fs (draw_pos e s p i) i (ns ! (currentLayerNeurons ns 0 ! i))"
    using g by (simp add: input_layer_def)
qed

lemma gate_result_fields [simp]:
  "id_n (gate_result k i n) = id_n n" "layer (gate_result k i n) = layer n"
  by (simp_all add: gate_result_def)

lemma input_result_fields [simp]:
  "id_n (input_result e s fs q i n) = id_n n" "layer (input_result e s fs q i n) = layer n"
  by (simp_all add: input_result_def)

lemma gate_layer_fields:
  assumes "a < length ns"
  shows "id_n (gate_layer s l ns ! a) = id_n (ns ! a) \<and> layer (gate_layer s l ns ! a) = layer (ns ! a)"
proof (cases "a \<in> set (currentLayerNeurons ns l)")
  case True
  then have "a \<in> set (ranking ns l)" by (simp add: ranking_props)
  then obtain i where "i < length (ranking ns l)" "ranking ns l ! i = a"
    by (auto simp: in_set_conv_nth)
  then show ?thesis using gate_layer_props(3) [of i ns l s] by simp
next
  case False
  then show ?thesis by (simp add: gate_layer_props(2))
qed

lemma input_layer_fields:
  assumes "a < length ns"
  shows "id_n (snd (input_layer e s fs (p, ns)) ! a) = id_n (ns ! a) \<and>
         layer (snd (input_layer e s fs (p, ns)) ! a) = layer (ns ! a)"
proof (cases "a \<in> set (currentLayerNeurons ns 0)")
  case True
  then obtain i where "i < length (currentLayerNeurons ns 0)" "currentLayerNeurons ns 0 ! i = a"
    by (auto simp: in_set_conv_nth)
  then show ?thesis using input_layer_props(4) [of i ns e s fs p] by simp
next
  case False
  then show ?thesis by (simp add: input_layer_props(3))
qed

text \<open>The raw activations: connections keep their wiring, neurons all but the activation.\<close>

lemma add_conn_wiring:
  "length (snd (add_conn ns j (sm, cs))) = length cs \<and>
   map from_c (snd (add_conn ns j (sm, cs))) = map from_c cs \<and>
   map to_c (snd (add_conn ns j (sm, cs))) = map to_c cs \<and>
   map weight (snd (add_conn ns j (sm, cs))) = map weight cs"
  by (simp add: add_conn_def map_update_same split: option.splits)

lemma add_conn_fold_wiring:
  "length (snd (fold (add_conn ns) js (sm, cs))) = length cs \<and>
   map from_c (snd (fold (add_conn ns) js (sm, cs))) = map from_c cs \<and>
   map to_c (snd (fold (add_conn ns) js (sm, cs))) = map to_c cs \<and>
   map weight (snd (fold (add_conn ns) js (sm, cs))) = map weight cs"
proof (induction js arbitrary: sm cs)
  case Nil
  then show ?case by simp
next
  case (Cons j js)
  obtain sm' cs' where a: "add_conn ns j (sm, cs) = (sm', cs')"
    by (cases "add_conn ns j (sm, cs)") auto
  show ?case
    using Cons.IH [of sm' cs'] add_conn_wiring [of ns j sm cs] a by simp
qed

lemma raw_unit_frame:
  assumes "raw_unit a (ns, cs) = (ns', cs')"
  shows "length ns' = length ns \<and> (\<forall>b. b \<noteq> a \<longrightarrow> ns' ! b = ns ! b) \<and>
         (\<exists>v. ns' = ns[a := (ns ! a)\<lparr> activation := v \<rparr>]) \<and>
         length cs' = length cs \<and> map from_c cs' = map from_c cs \<and>
         map to_c cs' = map to_c cs \<and> map weight cs' = map weight cs"
proof -
  obtain sm cs1 where f: "fold (add_conn ns) (incomingConns cs (ns ! a)) (0, cs) = (sm, cs1)"
    by (cases "fold (add_conn ns) (incomingConns cs (ns ! a)) (0, cs)") auto
  have r: "ns' = ns[a := (ns ! a)\<lparr> activation := max 0 sm \<rparr>]" "cs' = cs1"
    using assms f by (simp_all add: raw_unit_def)
  show ?thesis
    using add_conn_fold_wiring [of ns "incomingConns cs (ns ! a)" 0 cs] f r by auto
qed

section \<open>What a step leaves alone\<close>

lemma raw_fold_frame:
  assumes "fold raw_unit as (ns, cs) = (ns', cs')"
  shows "length ns' = length ns \<and> (\<forall>b. b \<notin> set as \<longrightarrow> ns' ! b = ns ! b) \<and>
         (\<forall>b<length ns. \<exists>v. ns' ! b = (ns ! b)\<lparr> activation := v \<rparr>) \<and>
         length cs' = length cs \<and> map from_c cs' = map from_c cs \<and>
         map to_c cs' = map to_c cs \<and> map weight cs' = map weight cs"
  using assms
proof (induction as arbitrary: ns cs)
  case Nil
  have "\<exists>v. ns ! b = (ns ! b)\<lparr> activation := v \<rparr>" for b
    by (rule exI [of _ "activation (ns ! b)"]) simp
  with Nil show ?case by simp
next
  case (Cons a as)
  obtain ns1 cs1 where u: "raw_unit a (ns, cs) = (ns1, cs1)"
    by (cases "raw_unit a (ns, cs)") auto
  note f = raw_unit_frame [OF u]
  have rest: "fold raw_unit as (ns1, cs1) = (ns', cs')"
    using Cons.prems u by simp
  note ih = Cons.IH [OF rest]
  obtain v where v: "ns1 = ns[a := (ns ! a)\<lparr> activation := v \<rparr>]"
    using f by blast
  have act: "\<exists>v'. ns' ! b = (ns ! b)\<lparr> activation := v' \<rparr>" if b: "b < length ns" for b
  proof -
    obtain v1 where "ns' ! b = (ns1 ! b)\<lparr> activation := v1 \<rparr>"
      using ih f b by auto
    moreover have "\<exists>v2. ns1 ! b = (ns ! b)\<lparr> activation := v2 \<rparr>"
    proof (cases "b = a")
      case True
      then show ?thesis using v b by auto
    next
      case False
      then have "ns1 ! b = (ns ! b)\<lparr> activation := activation (ns ! b) \<rparr>"
        using v by simp
      then show ?thesis by blast
    qed
    ultimately show ?thesis by auto
  qed
  show ?case
    using ih f act by auto
qed

lemma raw_layer_frame:
  assumes "raw_layer l (ns, cs) = (ns', cs')"
  shows "length ns' = length ns"
    and "\<And>b. b < length ns \<Longrightarrow> layer (ns ! b) \<noteq> l \<Longrightarrow> ns' ! b = ns ! b"
    and "\<And>b. b < length ns \<Longrightarrow> \<exists>v. ns' ! b = (ns ! b)\<lparr> activation := v \<rparr>"
    and "length cs' = length cs \<and> map from_c cs' = map from_c cs \<and>
         map to_c cs' = map to_c cs \<and> map weight cs' = map weight cs"
proof -
  have f: "fold raw_unit (currentLayerNeurons ns l) (ns, cs) = (ns', cs')"
    using assms by (simp add: raw_layer_def)
  note r = raw_fold_frame [OF f]
  show "length ns' = length ns" using r by simp
  show "\<And>b. b < length ns \<Longrightarrow> layer (ns ! b) \<noteq> l \<Longrightarrow> ns' ! b = ns ! b"
    using r by (simp add: currentLayerNeurons_props)
  show "\<And>b. b < length ns \<Longrightarrow> \<exists>v. ns' ! b = (ns ! b)\<lparr> activation := v \<rparr>"
    using r by simp
  show "length cs' = length cs \<and> map from_c cs' = map from_c cs \<and>
         map to_c cs' = map to_c cs \<and> map weight cs' = map weight cs"
    using r by simp
qed

lemma raw_layer_layers:
  assumes "raw_layer l (ns, cs) = (ns', cs')"
  shows "currentLayerNeurons ns' l' = currentLayerNeurons ns l'"
proof -
  have "layer (ns' ! b) = layer (ns ! b)" if "b < length ns" for b
    using raw_layer_frame(3) [OF assms that] by auto
  then show ?thesis
    using raw_layer_frame(1) [OF assms]
    by (auto simp: currentLayerNeurons_def intro: filter_cong)
qed

lemma layer_step_input:
  "layer_step e s fs 0 (p, ns, cs) =
     (fst (input_layer e s fs (p, ns)), snd (input_layer e s fs (p, ns)), cs)"
  by (simp add: layer_step_def split: prod.splits)

lemma layer_step_hidden:
  "0 < l \<Longrightarrow> layer_step e s fs l (p, ns, cs) =
     (p, gate_layer s l (fst (raw_layer l (ns, cs))), snd (raw_layer l (ns, cs)))"
  by (simp add: layer_step_def split: prod.splits)

lemma layer_step_frame:
  assumes "layer_step e s fs l (p, ns, cs) = (p', ns', cs')"
  shows "length ns' = length ns"
    and "\<And>b. b < length ns \<Longrightarrow> layer (ns ! b) \<noteq> l \<Longrightarrow> ns' ! b = ns ! b"
    and "\<And>b. b < length ns \<Longrightarrow> id_n (ns' ! b) = id_n (ns ! b) \<and> layer (ns' ! b) = layer (ns ! b)"
    and "length cs' = length cs \<and> map from_c cs' = map from_c cs \<and>
         map to_c cs' = map to_c cs \<and> map weight cs' = map weight cs"
proof -
  have "length ns' = length ns \<and>
        (\<forall>b<length ns. (layer (ns ! b) \<noteq> l \<longrightarrow> ns' ! b = ns ! b) \<and>
            id_n (ns' ! b) = id_n (ns ! b) \<and> layer (ns' ! b) = layer (ns ! b)) \<and>
        length cs' = length cs \<and> map from_c cs' = map from_c cs \<and>
         map to_c cs' = map to_c cs \<and> map weight cs' = map weight cs"
  proof (cases "l = 0")
    case True
    then have eq: "ns' = snd (input_layer e s fs (p, ns))" "cs' = cs"
      using assms by (simp_all add: layer_step_input)
    show ?thesis
      unfolding eq True
      by (simp add: input_layer_props(2,3) input_layer_fields currentLayerNeurons_props)
  next
    case False
    obtain ns1 cs1 where r: "raw_layer l (ns, cs) = (ns1, cs1)"
      by (cases "raw_layer l (ns, cs)") auto
    have eq: "ns' = gate_layer s l ns1" "cs' = cs1"
      using assms False r by (simp_all add: layer_step_hidden)
    note rf = raw_layer_frame [OF r]
    have l1: "layer (ns1 ! b) = layer (ns ! b) \<and> id_n (ns1 ! b) = id_n (ns ! b)" if "b < length ns" for b
      using rf(3) [OF that] by auto
    have "ns' ! b = ns ! b" if "b < length ns" "layer (ns ! b) \<noteq> l" for b
      using that rf(1,2) l1 by (simp add: eq gate_layer_props(2) currentLayerNeurons_props)
    moreover have "id_n (ns' ! b) = id_n (ns ! b) \<and> layer (ns' ! b) = layer (ns ! b)"
      if "b < length ns" for b
      using that gate_layer_fields [of b ns1 s l] rf(1) l1 by (simp add: eq)
    ultimately show ?thesis
      using rf(1,4) by (simp add: eq gate_layer_props(1))
  qed
  then show "length ns' = length ns"
    and "\<And>b. b < length ns \<Longrightarrow> layer (ns ! b) \<noteq> l \<Longrightarrow> ns' ! b = ns ! b"
    and "\<And>b. b < length ns \<Longrightarrow> id_n (ns' ! b) = id_n (ns ! b) \<and> layer (ns' ! b) = layer (ns ! b)"
    and "length cs' = length cs \<and> map from_c cs' = map from_c cs \<and>
         map to_c cs' = map to_c cs \<and> map weight cs' = map weight cs"
    by auto
qed

lemma forward_nth:
  "i < n \<Longrightarrow> forward e s fs l n st ! i =
     layer_step e s fs (l + i) ((st # forward e s fs l n st) ! i)"
proof (induction n arbitrary: l st i)
  case 0
  then show ?case by simp
next
  case (Suc n)
  show ?case
  proof (cases i)
    case 0
    then show ?thesis by simp
  next
    case (Suc j)
    then have "j < n" using Suc.prems by simp
    from Suc.IH [OF this, of "Suc l" "layer_step e s fs l st"]
    show ?thesis using Suc by simp
  qed
qed

text \<open>The states of a run, one step after the other.\<close>

lemma run_states_eq:
  assumes "text \<noteq> []" and "\<not> isProcessing w"
  shows "run_states e text w =
           map snd ((draws w, reset_state w) #
             forward e (sparsityLevel w) (tokenize e text) 0 6 (draws w, reset_state w))"
  using processInput_snapshots [OF assms, of e] by (simp add: run_states_def)

lemma run_step:
  assumes "text \<noteq> []" and "\<not> isProcessing w" and "l < 6"
  shows "\<exists>p p'. layer_step e (sparsityLevel w) (tokenize e text) l (p, run_states e text w ! l) =
                  (p', run_states e text w ! Suc l)"
proof -
  let ?F = "forward e (sparsityLevel w) (tokenize e text) 0 6 (draws w, reset_state w)"
  let ?T = "(draws w, reset_state w) # ?F"
  have len: "length ?T = 7" by (simp add: forward_length)
  have a: "run_states e text w ! l = snd (?T ! l)"
    unfolding run_states_eq [OF assms(1,2)] using assms(3) len by (subst nth_map) simp_all
  have b: "run_states e text w ! Suc l = snd (?T ! Suc l)"
    unfolding run_states_eq [OF assms(1,2)] using assms(3) len by (subst nth_map) simp_all
  have "?T ! Suc l = layer_step e (sparsityLevel w) (tokenize e text) l (?T ! l)"
    using forward_nth [OF assms(3), of e "sparsityLevel w" "tokenize e text" 0 "(draws w, reset_state w)"]
    by simp
  then have "layer_step e (sparsityLevel w) (tokenize e text) l (fst (?T ! l), run_states e text w ! l) =
        (fst (?T ! Suc l), run_states e text w ! Suc l)"
    by (simp add: a b)
  then show ?thesis by blast
qed

lemma run_first:
  assumes "text \<noteq> []" and "\<not> isProcessing w"
  shows "run_states e text w ! 0 = reset_state w"
    and "run_states e text w ! Suc 0 =
           snd (layer_step e (sparsityLevel w) (tokenize e text) 0 (draws w, reset_state w))"
  by (simp_all add: run_states_eq [OF assms] numeral_eq_Suc)

lemma run_hidden:
  assumes "text \<noteq> []" and "\<not> isProcessing w" and "0 < l" and "l < 6"
  shows "run_states e text w ! Suc l =
           (gate_layer (sparsityLevel w) l (fst (raw_layer l (run_states e text w ! l))),
            snd (raw_layer l (run_states e text w ! l)))"
proof -
  obtain p p' where "layer_step e (sparsityLevel w) (tokenize e text) l (p, run_states e text w ! l) =
                  (p', run_states e text w ! Suc l)"
    using run_step [OF assms(1,2,4)] by blast
  then show ?thesis
    using assms(3) by (cases "run_states e text w ! l") (simp add: layer_step_hidden)
qed

lemma run_shape:
  assumes "text \<noteq> []" and "\<not> isProcessing w" and "l \<le> 6"
  shows "length (fst (run_states e text w ! l)) = length (neurons w) \<and>
         (\<forall>b<length (neurons w). id_n (fst (run_states e text w ! l) ! b) = id_n (neurons w ! b) \<and>
                                  layer (fst (run_states e text w ! l) ! b) = layer (neurons w ! b)) \<and>
         length (snd (run_states e text w ! l)) = length (connections w) \<and>
         map from_c (snd (run_states e text w ! l)) = map from_c (connections w) \<and>
         map to_c (snd (run_states e text w ! l)) = map to_c (connections w) \<and>
         map weight (snd (run_states e text w ! l)) = map weight (connections w)"
  using assms(3)
proof (induction l)
  case 0
  show ?case
    by (simp add: run_first(1) [OF assms(1,2)] reset_state_def reset_neurons_def
        reset_connections_def comp_def)
next
  case (Suc l)
  then have l: "l < 6" and ih: "length (fst (run_states e text w ! l)) = length (neurons w)"
    "\<And>b. b < length (neurons w) \<Longrightarrow> id_n (fst (run_states e text w ! l) ! b) = id_n (neurons w ! b) \<and>
                                  layer (fst (run_states e text w ! l) ! b) = layer (neurons w ! b)"
    "length (snd (run_states e text w ! l)) = length (connections w) \<and>
         map from_c (snd (run_states e text w ! l)) = map from_c (connections w) \<and>
         map to_c (snd (run_states e text w ! l)) = map to_c (connections w) \<and>
         map weight (snd (run_states e text w ! l)) = map weight (connections w)"
    by auto
  obtain p p' where st: "layer_step e (sparsityLevel w) (tokenize e text) l
        (p, fst (run_states e text w ! l), snd (run_states e text w ! l)) =
        (p', fst (run_states e text w ! Suc l), snd (run_states e text w ! Suc l))"
    using run_step [OF assms(1,2) l, of e] by auto
  note f = layer_step_frame [OF st]
  show ?case
    using f(1) f(3) f(4) ih by simp
qed

section \<open>Frame and range of the activations\<close>

lemma snapshot_nth:
  "j < length (snd (processInput e text w)) \<Longrightarrow>
     snd (processInput e text w) ! j = run_states e text w ! Suc j"
  by (simp add: run_states_def)

lemma run_own_layer:
  assumes "text \<noteq> []" and "\<not> isProcessing w" and "l < 6"
    and "b < length (neurons w)" and "layer (neurons w ! b) \<noteq> l"
  shows "fst (run_states e text w ! Suc l) ! b = fst (run_states e text w ! l) ! b"
proof -
  obtain p p' where st: "layer_step e (sparsityLevel w) (tokenize e text) l
        (p, fst (run_states e text w ! l), snd (run_states e text w ! l)) =
        (p', fst (run_states e text w ! Suc l), snd (run_states e text w ! Suc l))"
    using run_step [OF assms(1,2,3), of e] by auto
  have sh: "length (fst (run_states e text w ! l)) = length (neurons w)"
    "layer (fst (run_states e text w ! l) ! b) = layer (neurons w ! b)"
    using run_shape [OF assms(1,2), of l e] assms(3,4) by simp_all
  show ?thesis
    using layer_step_frame(2) [OF st, of b] sh assms(4,5) by simp
qed

text \<open>
  Claim C10. Within a run, once the snapshot of layer \<open>j\<close> is emitted, the units of the
  layers up to \<open>j\<close> are never written again: a step writes only the units of its own
  layer, so a unit is in every later snapshot what it is in the snapshot of its layer.
\<close>

theorem earlier_layers_frozen:
  assumes "text \<noteq> []" and "\<not> isProcessing w"
    and "j \<le> j'" and "j' < 6"
    and "b < length (neurons w)" and "layer (neurons w ! b) \<le> j"
  shows "fst (snd (processInput e text w) ! j') ! b = fst (snd (processInput e text w) ! j) ! b \<and>
         (\<forall>l<6. \<forall>a<length (neurons w). layer (neurons w ! a) \<noteq> l \<longrightarrow>
            fst (run_states e text w ! Suc l) ! a = fst (run_states e text w ! l) ! a)"
proof -
  have len: "length (snd (processInput e text w)) = 6"
    by (rule processInput_length [OF assms(1,2)])
  have "fst (run_states e text w ! Suc j') ! b = fst (run_states e text w ! Suc j) ! b"
    using assms(3,4)
  proof (induction j' rule: dec_induct)
    case base
    show ?case by simp
  next
    case (step i)
    have "layer (neurons w ! b) \<noteq> Suc i"
      using assms(6) step.hyps by simp
    from run_own_layer [OF assms(1,2) step.prems assms(5) this, of e]
    show ?case using step by simp
  qed
  then have "fst (snd (processInput e text w) ! j') ! b = fst (snd (processInput e text w) ! j) ! b"
    using assms(3,4) len by (simp add: snapshot_nth)
  then show ?thesis
    using run_own_layer [OF assms(1,2), of _ _ e] by simp
qed

theorem earlier_layers_frozen_witness:
  "ex_text \<noteq> [] \<and> \<not> isProcessing ex_world \<and> (0::nat) \<le> 5 \<and> (5::nat) < 6 \<and>
   1 < length (neurons ex_world) \<and> layer (neurons ex_world ! 1) \<le> 0 \<and>
   fst (snd (processInput ex_env ex_text ex_world) ! 5) ! 1 =
     fst (snd (processInput ex_env ex_text ex_world) ! 0) ! 1 \<and>
   active_n (fst (snd (processInput ex_env ex_text ex_world) ! 5) ! 1)"
proof -
  have h1: "(0::nat) \<le> 5" and h2: "(5::nat) < 6" by simp_all
  have h3: "1 < length (neurons ex_world)" by code_simp
  have h4: "layer (neurons ex_world ! 1) \<le> 0" by code_simp
  have a: "active_n (fst (snd (processInput ex_env ex_text ex_world) ! 5) ! 1)" by code_simp
  from earlier_layers_frozen [OF ex_text_nonempty ex_world_idle h1 h2 h3 h4, of ex_env]
  show ?thesis
    using ex_text_nonempty ex_world_idle h1 h2 h3 h4 a by blast
qed

text \<open>Active units lie in the unit interval.\<close>

lemma input_result_range:
  assumes "random_ok e" and "active_n (input_result e s fs q i n)"
  shows "0 \<le> activation (input_result e s fs q i n) \<and> activation (input_result e s fs q i n) \<le> 1"
proof -
  have r: "0 \<le> Math_random e (q + 1)"
    using assms(1) by (simp add: random_ok_def)
  have "0 \<le> real (fs ! (i mod length fs)) / 128 * (1 + Math_random e (q + 1) * 0.5)"
    using r by simp
  then show ?thesis
    using assms(2) by (simp add: input_result_def split: if_splits)
qed

lemma gate_result_range:
  assumes "active_n (gate_result k i n)"
  shows "0 \<le> activation (gate_result k i n) \<and> activation (gate_result k i n) \<le> 1"
  using assms by (simp add: gate_result_def split: if_splits)

lemma layer_step_unit_interval:
  assumes "random_ok e"
    and "layer_step e s fs l (p, ns, cs) = (p', ns', cs')"
    and "\<forall>b<length ns. active_n (ns ! b) \<longrightarrow> 0 \<le> activation (ns ! b) \<and> activation (ns ! b) \<le> 1"
    and "b < length ns" and "active_n (ns' ! b)"
  shows "0 \<le> activation (ns' ! b) \<and> activation (ns' ! b) \<le> 1"
proof (cases "layer (ns ! b) = l")
  case False
  then have "ns' ! b = ns ! b"
    using layer_step_frame(2) [OF assms(2)] assms(4) by simp
  then show ?thesis using assms(3,4,5) by simp
next
  case True
  show ?thesis
  proof (cases "l = 0")
    case l0: True
    have "b \<in> set (currentLayerNeurons ns 0)"
      using True l0 assms(4) by (simp add: currentLayerNeurons_props)
    then obtain i where i: "i < length (currentLayerNeurons ns 0)" "currentLayerNeurons ns 0 ! i = b"
      by (auto simp: in_set_conv_nth)
    have "ns' = snd (input_layer e s fs (p, ns))"
      using assms(2) l0 by (simp add: layer_step_input)
    then have "ns' ! b = input_result e s fs (draw_pos e s p i) i (ns ! b)"
      using input_layer_props(4) [OF i(1), of e s fs p] i(2) by simp
    then show ?thesis
      using input_result_range [OF assms(1)] assms(5) by simp
  next
    case False
    define ns1 where "ns1 = fst (raw_layer l (ns, cs))"
    have r: "raw_layer l (ns, cs) = (ns1, snd (raw_layer l (ns, cs)))"
      by (simp add: ns1_def)
    have eq: "ns' = gate_layer s l ns1"
      using assms(2) False by (simp add: layer_step_hidden ns1_def)
    have "b \<in> set (currentLayerNeurons ns1 l)"
      using True assms(4) by (simp add: raw_layer_layers [OF r] currentLayerNeurons_props)
    then obtain i where i: "i < length (ranking ns1 l)" "ranking ns1 l ! i = b"
      by (auto simp: in_set_conv_nth ranking_props(2) [symmetric])
    have "ns' ! b = gate_result (topk s (length (currentLayerNeurons ns1 l))) i (ns1 ! b)"
      using gate_layer_props(3) [OF i(1), of s] i(2) by (simp add: eq)
    then show ?thesis
      using gate_result_range assms(5) by simp
  qed
qed

lemma run_unit_interval:
  assumes "text \<noteq> []" and "\<not> isProcessing w" and "random_ok e" and "l \<le> 6"
  shows "\<forall>b<length (neurons w). active_n (fst (run_states e text w ! l) ! b) \<longrightarrow>
           0 \<le> activation (fst (run_states e text w ! l) ! b) \<and>
           activation (fst (run_states e text w ! l) ! b) \<le> 1"
  using assms(4)
proof (induction l)
  case 0
  show ?case
    by (simp add: run_first(1) [OF assms(1,2)] reset_state_def reset_neurons_def)
next
  case (Suc l)
  then have l: "l < 6" "l \<le> 6" by simp_all
  obtain p p' where st: "layer_step e (sparsityLevel w) (tokenize e text) l
        (p, fst (run_states e text w ! l), snd (run_states e text w ! l)) =
        (p', fst (run_states e text w ! Suc l), snd (run_states e text w ! Suc l))"
    using run_step [OF assms(1,2) l(1), of e] by auto
  have len: "length (fst (run_states e text w ! l)) = length (neurons w)"
    using run_shape [OF assms(1,2) l(2), of e] by simp
  show ?case
    using layer_step_unit_interval [OF assms(3) st] Suc.IH [OF l(2)] len by simp
qed

text \<open>
  Claim C9. In every snapshot emitted by a run, every active unit has its activation in
  the interval from 0 to 1.
\<close>

theorem active_units_in_unit_interval:
  assumes "text \<noteq> []" and "\<not> isProcessing w" and "random_ok e"
    and "toLowerCase e text \<noteq> []"
    and "j < 6" and "n \<in> set (fst (snd (processInput e text w) ! j))" and "active_n n"
  shows "0 \<le> activation n \<and> activation n \<le> 1"
proof -
  have len: "length (snd (processInput e text w)) = 6"
    by (rule processInput_length [OF assms(1,2)])
  have eq: "snd (processInput e text w) ! j = run_states e text w ! Suc j"
    using assms(5) len by (simp add: snapshot_nth)
  have sh: "length (fst (run_states e text w ! Suc j)) = length (neurons w)"
    using run_shape [OF assms(1,2), of "Suc j" e] assms(5) by simp
  obtain b where b: "b < length (neurons w)" "fst (run_states e text w ! Suc j) ! b = n"
    using assms(6) sh by (auto simp: eq in_set_conv_nth)
  show ?thesis
    using run_unit_interval [OF assms(1,2,3), of "Suc j"] assms(5,7) b by auto
qed

theorem active_units_in_unit_interval_witness:
  "ex_text \<noteq> [] \<and> \<not> isProcessing ex_world \<and> random_ok ex_env \<and>
   toLowerCase ex_env ex_text \<noteq> [] \<and> (1::nat) < 6 \<and>
   fst (snd (processInput ex_env ex_text ex_world) ! 1) ! 3
     \<in> set (fst (snd (processInput ex_env ex_text ex_world) ! 1)) \<and>
   active_n (fst (snd (processInput ex_env ex_text ex_world) ! 1) ! 3) \<and>
   0 \<le> activation (fst (snd (processInput ex_env ex_text ex_world) ! 1) ! 3) \<and>
   activation (fst (snd (processInput ex_env ex_text ex_world) ! 1) ! 3) \<le> 1"
proof -
  have h1: "(1::nat) < 6" by simp
  have h2: "fst (snd (processInput ex_env ex_text ex_world) ! 1) ! 3
     \<in> set (fst (snd (processInput ex_env ex_text ex_world) ! 1))" by code_simp
  have h3: "active_n (fst (snd (processInput ex_env ex_text ex_world) ! 1) ! 3)" by code_simp
  from active_units_in_unit_interval
    [OF ex_text_nonempty ex_world_idle ex_random_ok ex_lower_nonempty h1 h2 h3]
  show ?thesis
    using ex_text_nonempty ex_world_idle ex_random_ok ex_lower_nonempty h1 h2 h3 by blast
qed

section \<open>The two gates\<close>

lemma filter_prefix_bound:
  "(\<forall>i<length xs. Q (xs ! i) \<longrightarrow> i < m) \<Longrightarrow> length (filter Q xs) \<le> m"
proof (induction xs arbitrary: m)
  case Nil
  then show ?case by simp
next
  case (Cons x xs)
  have tl: "\<forall>i<length xs. Q (xs ! i) \<longrightarrow> Suc i < m"
    using Cons.prems by auto
  show ?case
  proof (cases "Q x")
    case True
    then have "0 < m" using Cons.prems by auto
    moreover have "length (filter Q xs) \<le> m - 1"
      using tl by (intro Cons.IH) auto
    ultimately show ?thesis using True by simp
  next
    case False
    have "length (filter Q xs) \<le> m"
      using tl by (intro Cons.IH) auto
    then show ?thesis using False by simp
  qed
qed

lemma count_in_layer:
  "length (filter (\<lambda>n. layer n = l \<and> Q n) ns) =
   length (filter (\<lambda>a. Q (ns ! a)) (currentLayerNeurons ns l))"
proof -
  have "length (filter (\<lambda>n. layer n = l \<and> Q n) (map (\<lambda>a. ns ! a) [0..<length ns])) =
        length (filter (\<lambda>a. layer (ns ! a) = l \<and> Q (ns ! a)) [0..<length ns])"
    by (simp add: filter_map comp_def)
  also have "\<dots> = length (filter (\<lambda>a. Q (ns ! a)) (currentLayerNeurons ns l))"
    by (simp add: currentLayerNeurons_def conj_commute)
  finally show ?thesis by (simp add: map_nth)
qed

lemma count_ranking:
  "length (filter Q (currentLayerNeurons ns l)) = length (filter Q (ranking ns l))"
proof -
  have "mset (filter Q (ranking ns l)) = mset (filter Q (currentLayerNeurons ns l))"
    by (simp add: ranking_def)
  then show ?thesis by (metis size_mset)
qed

lemma topk_nonneg:
  assumes "s \<le> 1"
  shows "0 \<le> topk s n"
proof -
  have "0 \<le> real n * (1 - s)"
    using assms by simp
  then show ?thesis
    by (simp add: topk_def)
qed

lemma ranking_descending:
  assumes "i \<le> j" and "j < length (ranking ns l)"
  shows "activation (ns ! (ranking ns l ! j)) \<le> activation (ns ! (ranking ns l ! i))"
proof -
  have "sorted (map (\<lambda>a. - activation (ns ! a)) (ranking ns l))"
    by (simp add: ranking_def)
  then have "map (\<lambda>a. - activation (ns ! a)) (ranking ns l) ! i \<le>
             map (\<lambda>a. - activation (ns ! a)) (ranking ns l) ! j"
    using assms by (intro sorted_nth_mono) simp_all
  then show ?thesis using assms by simp
qed

lemma gate_layer_count:
  assumes "s \<le> 1"
  shows "int (length (filter (\<lambda>n. layer n = l \<and> active_n n) (gate_layer s l ns))) \<le>
         topk s (length (currentLayerNeurons ns l))"
proof -
  let ?k = "topk s (length (currentLayerNeurons ns l))"
  let ?post = "gate_layer s l ns"
  have same: "currentLayerNeurons ?post l = currentLayerNeurons ns l"
    using gate_layer_fields [of _ ns s l]
    by (auto simp: currentLayerNeurons_def gate_layer_props(1) intro: filter_cong)
  have "\<forall>i<length (ranking ns l). active_n (?post ! (ranking ns l ! i)) \<longrightarrow> i < nat ?k"
    using topk_nonneg [OF assms, of "length (currentLayerNeurons ns l)"]
    by (auto simp: gate_layer_props(3) gate_result_def split: if_splits)
  then have "length (filter (\<lambda>a. active_n (?post ! a)) (ranking ns l)) \<le> nat ?k"
    by (rule filter_prefix_bound)
  then have "length (filter (\<lambda>n. layer n = l \<and> active_n n) ?post) \<le> nat ?k"
    by (simp add: count_in_layer same count_ranking)
  then show ?thesis
    using topk_nonneg [OF assms, of "length (currentLayerNeurons ns l)"] by simp
qed

lemma run_layers:
  assumes "text \<noteq> []" and "\<not> isProcessing w" and "l \<le> 6"
  shows "currentLayerNeurons (fst (run_states e text w ! l)) l' = currentLayerNeurons (neurons w) l'"
  using run_shape [OF assms, of e]
  by (auto simp: currentLayerNeurons_def intro: filter_cong)

lemma layer_size:
  "length (currentLayerNeurons ns l) = length (filter (\<lambda>n. layer n = l) ns)"
  using count_in_layer [of l "\<lambda>_. True" ns] by simp

lemma topk_ceiling:
  "topk s (length (currentLayerNeurons ns l)) =
     \<lceil>real (length (filter (\<lambda>n. layer n = l) ns)) * (1 - s)\<rceil>"
  by (simp add: topk_def layer_size)

lemma ranking_stable:
  "filter (\<lambda>a. activation (ns ! a) = v) (ranking ns l) =
   filter (\<lambda>a. activation (ns ! a) = v) (currentLayerNeurons ns l)"
  using sort_key_stable [of "\<lambda>a. - activation (ns ! a)" "- v" "currentLayerNeurons ns l"]
  by (simp add: ranking_def)

lemma ex_world2_idle: "\<not> isProcessing ex_world2"
  by code_simp

lemma ex_sparsity2: "sparsityLevel ex_world2 \<le> 1"
  by code_simp

lemma ex_lower_nonempty2: "toLowerCase ex_env2 ex_text \<noteq> []"
  by (simp add: ex_env2_def ex_env_def ex_text_def ascii_lower_def)

text \<open>
  Claim C1. In the snapshot of a layer \<open>l > 0\<close> of a run, at most
  \<open>k = ceil(layerSize * (1 - sparsityLevel))\<close> units of the layer are active, where
  \<open>layerSize\<close> is the number of neurons of the layer; a unit is active exactly when its
  rank by descending raw activation (ties in the order of the array) is below \<open>k\<close> and
  its raw activation exceeds 0.1, and it then holds the raw activation clamped to 1; an
  inactive unit keeps its raw activation.
\<close>

theorem topk_gate:
  fixes e :: env and w :: world and l :: nat
  assumes "text \<noteq> []" and "\<not> isProcessing w" and "sparsityLevel w \<le> 1"
    and "0 < l" and "l < 6" and "toLowerCase e text \<noteq> []"
  defines "raw \<equiv> fst (raw_layer l (run_states e text w ! l))"
    and "post \<equiv> fst (snd (processInput e text w) ! l)"
    and "k \<equiv> \<lceil>real (length (filter (\<lambda>n. layer n = l) (neurons w))) * (1 - sparsityLevel w)\<rceil>"
  shows "int (length (filter (\<lambda>n. layer n = l \<and> active_n n) post)) \<le> k \<and>
         set (ranking raw l) = set (currentLayerNeurons (neurons w) l) \<and>
         distinct (ranking raw l) \<and>
         (\<forall>i j. i \<le> j \<and> j < length (ranking raw l) \<longrightarrow>
            activation (raw ! (ranking raw l ! j)) \<le> activation (raw ! (ranking raw l ! i))) \<and>
         (\<forall>v. filter (\<lambda>a. activation (raw ! a) = v) (ranking raw l) =
              filter (\<lambda>a. activation (raw ! a) = v) (currentLayerNeurons (neurons w) l)) \<and>
         (\<forall>i<length (ranking raw l).
            active_n (post ! (ranking raw l ! i)) =
              (int i < k \<and> 0.1 < activation (raw ! (ranking raw l ! i)))) \<and>
         (\<forall>b\<in>set (currentLayerNeurons (neurons w) l).
            (active_n (post ! b) \<longrightarrow>
               0.1 < activation (raw ! b) \<and> activation (post ! b) = min 1 (activation (raw ! b))) \<and>
            (\<not> active_n (post ! b) \<longrightarrow> activation (post ! b) = activation (raw ! b)))"
proof -
  obtain ns cs where pre: "run_states e text w ! l = (ns, cs)"
    by (cases "run_states e text w ! l") auto
  have r: "raw_layer l (ns, cs) = (raw, snd (raw_layer l (ns, cs)))"
    by (simp add: raw_def pre)
  have post: "post = gate_layer (sparsityLevel w) l raw"
    using run_hidden [OF assms(1,2,4,5), of e] processInput_length [OF assms(1,2), of e] assms(5)
    by (simp add: post_def raw_def snapshot_nth)
  have cur: "currentLayerNeurons raw l = currentLayerNeurons (neurons w) l"
    using raw_layer_layers [OF r, of l] run_layers [OF assms(1,2), of l e l] assms(5)
    by (simp add: pre)
  have k: "k = topk (sparsityLevel w) (length (currentLayerNeurons raw l))"
    unfolding cur k_def by (rule topk_ceiling [symmetric])
  have rank: "\<And>i. i < length (ranking raw l) \<Longrightarrow>
      post ! (ranking raw l ! i) = gate_result k i (raw ! (ranking raw l ! i))"
    by (simp add: post k gate_layer_props(3))
  have c1: "int (length (filter (\<lambda>n. layer n = l \<and> active_n n) post)) \<le> k"
    unfolding post k by (rule gate_layer_count [OF assms(3)])
  have c2: "set (ranking raw l) = set (currentLayerNeurons (neurons w) l)"
    by (simp add: ranking_props(2) cur)
  have c2': "distinct (ranking raw l)"
    by (rule ranking_props(1))
  have c3: "\<forall>i j. i \<le> j \<and> j < length (ranking raw l) \<longrightarrow>
            activation (raw ! (ranking raw l ! j)) \<le> activation (raw ! (ranking raw l ! i))"
    using ranking_descending by blast
  have c3': "\<forall>v. filter (\<lambda>a. activation (raw ! a) = v) (ranking raw l) =
              filter (\<lambda>a. activation (raw ! a) = v) (currentLayerNeurons (neurons w) l)"
    using ranking_stable [of raw _ l] by (simp add: cur)
  have c4: "\<forall>i<length (ranking raw l).
            active_n (post ! (ranking raw l ! i)) =
              (int i < k \<and> 0.1 < activation (raw ! (ranking raw l ! i)))"
    by (simp add: rank gate_result_def)
  have c5: "(active_n (post ! b) \<longrightarrow>
               0.1 < activation (raw ! b) \<and> activation (post ! b) = min 1 (activation (raw ! b))) \<and>
            (\<not> active_n (post ! b) \<longrightarrow> activation (post ! b) = activation (raw ! b))"
    if "b \<in> set (currentLayerNeurons (neurons w) l)" for b
  proof -
    have "b \<in> set (ranking raw l)"
      using that c2 by simp
    then obtain i where i: "i < length (ranking raw l)" "ranking raw l ! i = b"
      by (auto simp: in_set_conv_nth)
    show ?thesis
      using rank [OF i(1)] by (simp add: i(2) gate_result_def)
  qed
  show ?thesis
    using c1 c2 c2' c3 c3' c4 c5 by blast
qed

theorem topk_gate_witness:
  "ex_text \<noteq> [] \<and> \<not> isProcessing ex_world2 \<and> sparsityLevel ex_world2 \<le> 1 \<and>
   (0::nat) < 1 \<and> (1::nat) < 6 \<and> toLowerCase ex_env2 ex_text \<noteq> [] \<and>
   length (filter (\<lambda>n. layer n = 1) (neurons ex_world2)) = 2 \<and>
   \<lceil>real (length (filter (\<lambda>n. layer n = 1) (neurons ex_world2))) *
      (1 - sparsityLevel ex_world2)\<rceil> = 1 \<and>
   ranking (fst (raw_layer 1 (run_states ex_env2 ex_text ex_world2 ! 1))) 1 = [2, 3] \<and>
   activation (fst (raw_layer 1 (run_states ex_env2 ex_text ex_world2 ! 1)) ! 2) = 8 / 5 \<and>
   activation (fst (raw_layer 1 (run_states ex_env2 ex_text ex_world2 ! 1)) ! 3) = 8 / 5 \<and>
   active_n (fst (snd (processInput ex_env2 ex_text ex_world2) ! 1) ! 2) \<and>
   activation (fst (snd (processInput ex_env2 ex_text ex_world2) ! 1) ! 2) = 1 \<and>
   \<not> active_n (fst (snd (processInput ex_env2 ex_text ex_world2) ! 1) ! 3) \<and>
   activation (fst (snd (processInput ex_env2 ex_text ex_world2) ! 1) ! 3) = 8 / 5 \<and>
   length (filter (\<lambda>n. layer n = 1 \<and> active_n n)
     (fst (snd (processInput ex_env2 ex_text ex_world2) ! 1))) = 1 \<and>
   int (length (filter (\<lambda>n. layer n = 1 \<and> active_n n)
     (fst (snd (processInput ex_env2 ex_text ex_world2) ! 1))))
     \<le> \<lceil>real (length (filter (\<lambda>n. layer n = 1) (neurons ex_world2))) *
          (1 - sparsityLevel ex_world2)\<rceil>"
proof -
  have h1: "(0::nat) < 1" and h2: "(1::nat) < 6" by simp_all
  have n: "length (filter (\<lambda>n. layer n = 1) (neurons ex_world2)) = 2"
    by code_simp
  have s: "sparsityLevel ex_world2 = 1 / 2"
    by (simp add: ex_world2_def)
  have k: "\<lceil>real (length (filter (\<lambda>n. layer n = 1) (neurons ex_world2))) *
      (1 - sparsityLevel ex_world2)\<rceil> = 1"
    unfolding n s by simp
  have r: "ranking (fst (raw_layer 1 (run_states ex_env2 ex_text ex_world2 ! 1))) 1 = [2, 3]"
    by code_simp
  have r2: "activation (fst (raw_layer 1 (run_states ex_env2 ex_text ex_world2 ! 1)) ! 2) = 8 / 5"
    by code_simp
  have r3: "activation (fst (raw_layer 1 (run_states ex_env2 ex_text ex_world2 ! 1)) ! 3) = 8 / 5"
    by code_simp
  have p2: "active_n (fst (snd (processInput ex_env2 ex_text ex_world2) ! 1) ! 2)"
    by code_simp
  have a2: "activation (fst (snd (processInput ex_env2 ex_text ex_world2) ! 1) ! 2) = 1"
    by code_simp
  have p3: "\<not> active_n (fst (snd (processInput ex_env2 ex_text ex_world2) ! 1) ! 3)"
    by code_simp
  have a3: "activation (fst (snd (processInput ex_env2 ex_text ex_world2) ! 1) ! 3) = 8 / 5"
    by code_simp
  have c: "length (filter (\<lambda>n. layer n = 1 \<and> active_n n)
     (fst (snd (processInput ex_env2 ex_text ex_world2) ! 1))) = 1"
    by code_simp
  from topk_gate [OF ex_text_nonempty ex_world2_idle ex_sparsity2 h1 h2 ex_lower_nonempty2]
  show ?thesis
    using ex_text_nonempty ex_world2_idle ex_sparsity2 h1 h2 ex_lower_nonempty2 n k r r2 r3
      p2 a2 p3 a3 c
    by blast
qed

text \<open>The input layer.\<close>

lemma draw_pos_mono: "i \<le> j \<Longrightarrow> draw_pos e s p i \<le> draw_pos e s p j"
proof (induction j)
  case 0
  then show ?case by simp
next
  case (Suc j)
  then show ?case by (cases "i = Suc j") auto
qed

lemma draw_pos_fresh:
  assumes "i < j"
  shows "draw_pos e s p i < draw_pos e s p j \<and>
         (Math_random e (draw_pos e s p i) > s \<longrightarrow> draw_pos e s p i + 1 < draw_pos e s p j)"
proof -
  have "draw_pos e s p (Suc i) \<le> draw_pos e s p j"
    using assms by (intro draw_pos_mono) simp
  then show ?thesis by (auto split: if_splits)
qed

text \<open>
  Claim C2. In the snapshot of layer 0, the unit at position \<open>idx\<close> of the layer is
  active iff its draw \<open>r\<close> exceeds \<open>sparsityLevel\<close>; an active unit holds
  \<open>min(1, featureVal * (1 + r' * 0.5))\<close> for the next draw \<open>r'\<close>, an inactive one
  \<open>featureVal = features[idx mod len(features)] / 128\<close>; and neither draw is one that
  an earlier unit used.
\<close>

theorem input_layer_step:
  fixes e :: env and w :: world and idx :: nat
  assumes "text \<noteq> []" and "\<not> isProcessing w" and "toLowerCase e text \<noteq> []"
    and "idx < length (currentLayerNeurons (neurons w) 0)"
  defines "features \<equiv> tokenize e text"
    and "unit \<equiv> fst (snd (processInput e text w) ! 0) ! (currentLayerNeurons (neurons w) 0 ! idx)"
    and "q \<equiv> draw_pos e (sparsityLevel w) (draws w) idx"
  defines "featureVal \<equiv> real (features ! (idx mod length features)) / 128"
  shows "active_n unit = (Math_random e q > sparsityLevel w) \<and>
         activation unit =
           (if Math_random e q > sparsityLevel w
            then min 1 (featureVal * (1 + Math_random e (q + 1) * 0.5))
            else featureVal) \<and>
         draws w \<le> q \<and>
         (\<forall>i<idx. draw_pos e (sparsityLevel w) (draws w) i < q \<and>
            (Math_random e (draw_pos e (sparsityLevel w) (draws w) i) > sparsityLevel w \<longrightarrow>
               draw_pos e (sparsityLevel w) (draws w) i + 1 < q))"
proof -
  let ?ns = "reset_neurons (neurons w)"
  have cur: "currentLayerNeurons ?ns 0 = currentLayerNeurons (neurons w) 0"
    by (auto simp: currentLayerNeurons_def reset_neurons_def intro: filter_cong)
  have "snd (processInput e text w) ! 0 = run_states e text w ! Suc 0"
    using processInput_length [OF assms(1,2), of e] by (simp add: snapshot_nth)
  then have "fst (snd (processInput e text w) ! 0) =
        snd (input_layer e (sparsityLevel w) features (draws w, ?ns))"
    by (simp add: run_first(2) [OF assms(1,2)] reset_state_def layer_step_input features_def)
  then have u: "unit = input_result e (sparsityLevel w) features q idx
                   (?ns ! (currentLayerNeurons (neurons w) 0 ! idx))"
    using input_layer_props(4) [of idx ?ns e "sparsityLevel w" features "draws w"] assms(4)
    by (simp add: unit_def cur q_def)
  have "draws w \<le> q"
    using draw_pos_mono [of 0 idx e "sparsityLevel w" "draws w"] by (simp add: q_def)
  then show ?thesis
    using draw_pos_fresh [of _ idx e "sparsityLevel w" "draws w"]
    by (simp add: u input_result_def featureVal_def q_def)
qed

theorem input_layer_step_witness:
  "ex_text \<noteq> [] \<and> \<not> isProcessing ex_world \<and> toLowerCase ex_env ex_text \<noteq> [] \<and>
   1 < length (currentLayerNeurons (neurons ex_world) 0) \<and>
   draw_pos ex_env (sparsityLevel ex_world) (draws ex_world) 1 = 10 \<and>
   active_n (fst (snd (processInput ex_env ex_text ex_world) ! 0) !
      (currentLayerNeurons (neurons ex_world) 0 ! 1)) =
     (Math_random ex_env (draw_pos ex_env (sparsityLevel ex_world) (draws ex_world) 1)
        > sparsityLevel ex_world) \<and>
   activation (fst (snd (processInput ex_env ex_text ex_world) ! 0) !
      (currentLayerNeurons (neurons ex_world) 0 ! 1)) = 245 / 256"
proof -
  have h1: "1 < length (currentLayerNeurons (neurons ex_world) 0)" by code_simp
  have q: "draw_pos ex_env (sparsityLevel ex_world) (draws ex_world) 1 = 10" by code_simp
  have a: "activation (fst (snd (processInput ex_env ex_text ex_world) ! 0) !
      (currentLayerNeurons (neurons ex_world) 0 ! 1)) = 245 / 256" by code_simp
  from input_layer_step [OF ex_text_nonempty ex_world_idle ex_lower_nonempty h1]
  show ?thesis
    using ex_text_nonempty ex_world_idle ex_lower_nonempty h1 q a by blast
qed

section \<open>The weighted sums\<close>

lemma find_by_key:
  assumes "distinct (map g xs)" and "i < length xs"
  shows "find (\<lambda>z. g z = g (xs ! i)) xs = Some (xs ! i)"
proof -
  have "g (xs ! j) \<noteq> g (xs ! i)" if "j < i" for j
  proof -
    have "map g xs ! j \<noteq> map g xs ! i"
      using assms that nth_eq_iff_index_eq [of "map g xs" j i] by simp
    then show ?thesis using assms(2) that by simp
  qed
  then show ?thesis
    using assms(2) by (auto simp: find_Some_iff)
qed

lemma fromNeuron_nth:
  assumes "distinct (map id_n ns)" and "i < length ns" and "id_n (ns ! i) = from_c c"
  shows "fromNeuron ns c = Some (ns ! i)"
  using find_by_key [OF assms(1,2)] assms(3) by (simp add: fromNeuron_def)

lemma src_active_flag [simp]: "src_active ns (c\<lparr> active_c := b \<rparr>) = src_active ns c"
  by (simp add: src_active_def fromNeuron_def)

lemma contribution_flag [simp]: "contribution ns (c\<lparr> active_c := b \<rparr>) = contribution ns c"
  by (simp add: contribution_def fromNeuron_def split: option.splits)

lemma add_conn_eq:
  "add_conn ns j (sm, cs) =
     (if src_active ns (cs ! j)
      then (sm + contribution ns (cs ! j), cs[j := (cs ! j)\<lparr> active_c := True \<rparr>])
      else (sm, cs))"
  by (simp add: add_conn_def src_active_def contribution_def split: option.splits)

lemma add_conn_fold_exact:
  assumes "\<forall>j\<in>set js. j < length cs"
  shows "fst (fold (add_conn ns) js (sm, cs)) =
           sm + sum_list (map (\<lambda>j. contribution ns (cs ! j))
                            (filter (\<lambda>j. src_active ns (cs ! j)) js)) \<and>
         (\<forall>i<length cs. snd (fold (add_conn ns) js (sm, cs)) ! i =
            (if i \<in> set js \<and> src_active ns (cs ! i) then (cs ! i)\<lparr> active_c := True \<rparr>
             else cs ! i))"
  using assms
proof (induction js arbitrary: sm cs)
  case Nil
  then show ?case by simp
next
  case (Cons j js)
  define sm1 where "sm1 = fst (add_conn ns j (sm, cs))"
  define cs1 where "cs1 = snd (add_conn ns j (sm, cs))"
  have j: "j < length cs" using Cons.prems by simp
  have len: "length cs1 = length cs"
    by (simp add: cs1_def add_conn_eq)
  have sm1: "sm1 = (if src_active ns (cs ! j) then sm + contribution ns (cs ! j) else sm)"
    by (simp add: sm1_def add_conn_eq)
  have nth1: "cs1 ! i = (if i = j \<and> src_active ns (cs ! j) then (cs ! j)\<lparr> active_c := True \<rparr>
                         else cs ! i)" if "i < length cs" for i
    using that by (simp add: cs1_def add_conn_eq nth_list_update)
  have same: "src_active ns (cs1 ! i) = src_active ns (cs ! i) \<and>
              contribution ns (cs1 ! i) = contribution ns (cs ! i)" if "i < length cs" for i
    using nth1 [OF that] by simp
  have bound: "\<forall>i\<in>set js. i < length cs1" "\<forall>i\<in>set js. i < length cs"
    using Cons.prems len by simp_all
  have f: "filter (\<lambda>i. src_active ns (cs1 ! i)) js = filter (\<lambda>i. src_active ns (cs ! i)) js"
    using bound(2) same by (intro filter_cong) auto
  have m: "map (\<lambda>i. contribution ns (cs1 ! i)) (filter (\<lambda>i. src_active ns (cs ! i)) js) =
           map (\<lambda>i. contribution ns (cs ! i)) (filter (\<lambda>i. src_active ns (cs ! i)) js)"
    using bound(2) same by (intro map_cong) auto
  have step: "fold (add_conn ns) (j # js) (sm, cs) = fold (add_conn ns) js (sm1, cs1)"
    by (simp add: sm1_def cs1_def)
  note ih = Cons.IH [OF bound(1), of sm1]
  have sum: "fst (fold (add_conn ns) (j # js) (sm, cs)) =
           sm + sum_list (map (\<lambda>j. contribution ns (cs ! j))
                            (filter (\<lambda>j. src_active ns (cs ! j)) (j # js)))"
    unfolding step using ih by (simp add: f m sm1)
  have nth: "snd (fold (add_conn ns) (j # js) (sm, cs)) ! i =
            (if i \<in> set (j # js) \<and> src_active ns (cs ! i) then (cs ! i)\<lparr> active_c := True \<rparr>
             else cs ! i)" if i: "i < length cs" for i
  proof -
    have "snd (fold (add_conn ns) js (sm1, cs1)) ! i =
            (if i \<in> set js \<and> src_active ns (cs1 ! i) then (cs1 ! i)\<lparr> active_c := True \<rparr>
             else cs1 ! i)"
      using ih i len by simp
    then show ?thesis
      unfolding step using same [OF i] nth1 [OF i] by auto
  qed
  show ?case
    using sum nth by blast
qed

lemma weighted_input_index:
  "weighted_input ns cs n =
     sum_list (map (\<lambda>j. contribution ns (cs ! j))
                 (filter (\<lambda>j. src_active ns (cs ! j)) (incomingConns cs n)))"
proof -
  have "filter (\<lambda>c. to_c c = id_n n) (map (\<lambda>j. cs ! j) [0..<length cs]) =
        map (\<lambda>j. cs ! j) (incomingConns cs n)"
    by (simp add: incomingConns_def filter_map comp_def)
  then have "filter (\<lambda>c. to_c c = id_n n) cs = map (\<lambda>j. cs ! j) (incomingConns cs n)"
    by (simp add: map_nth)
  then show ?thesis
    by (simp add: weighted_input_def filter_map comp_def)
qed

lemma raw_unit_exact:
  "fst (raw_unit a (ns, cs)) =
     ns[a := (ns ! a)\<lparr> activation := max 0 (weighted_input ns cs (ns ! a)) \<rparr>] \<and>
   length (snd (raw_unit a (ns, cs))) = length cs \<and>
   (\<forall>j<length cs. snd (raw_unit a (ns, cs)) ! j =
      (if to_c (cs ! j) = id_n (ns ! a) \<and> src_active ns (cs ! j)
       then (cs ! j)\<lparr> active_c := True \<rparr> else cs ! j))"
proof -
  have b: "\<forall>j\<in>set (incomingConns cs (ns ! a)). j < length cs"
    by (simp add: incomingConns_def)
  note x = add_conn_fold_exact [OF b, of ns 0]
  have mem: "j \<in> set (incomingConns cs (ns ! a)) \<longleftrightarrow> to_c (cs ! j) = id_n (ns ! a)"
    if "j < length cs" for j
    using that by (simp add: incomingConns_def)
  have 1: "fst (raw_unit a (ns, cs)) =
     ns[a := (ns ! a)\<lparr> activation := max 0 (weighted_input ns cs (ns ! a)) \<rparr>]"
    using x by (auto simp: raw_unit_def weighted_input_index split: prod.splits)
  have 2: "snd (raw_unit a (ns, cs)) = snd (fold (add_conn ns) (incomingConns cs (ns ! a)) (0, cs))"
    by (simp add: raw_unit_def split: prod.splits)
  show ?thesis
    using 1 x mem add_conn_fold_wiring [of ns "incomingConns cs (ns ! a)" 0 cs]
    by (simp add: 2)
qed

lemma wf_endpoints:
  assumes "wf_topology ns cs" and "j < length cs"
  shows "\<exists>i t. i < length ns \<and> t < length ns \<and> id_n (ns ! i) = from_c (cs ! j) \<and>
               id_n (ns ! t) = to_c (cs ! j) \<and> layer (ns ! t) = Suc (layer (ns ! i))"
proof -
  have "adjacent ns (cs ! j)"
    using assms by (simp add: wf_topology_def list_all_length)
  then obtain f t where "f \<in> set ns" "t \<in> set ns" "id_n f = from_c (cs ! j)"
    "id_n t = to_c (cs ! j)" "layer t = layer f + 1"
    by (auto simp: adjacent_def list_ex_iff)
  then show ?thesis
    by (auto simp: in_set_conv_nth)
qed

lemma id_unique:
  assumes "distinct (map id_n ns)" and "a < length ns" and "b < length ns"
    and "id_n (ns ! a) = id_n (ns ! b)"
  shows "a = b"
  using assms nth_eq_iff_index_eq [of "map id_n ns" a b] by simp

lemma src_stable:
  assumes "distinct (map id_n ns)" and "length ns' = length ns"
    and "\<forall>b<length ns. id_n (ns' ! b) = id_n (ns ! b)"
    and "i < length ns" and "id_n (ns ! i) = from_c c" and "ns' ! i = ns ! i"
  shows "src_active ns' c = src_active ns c \<and> contribution ns' c = contribution ns c"
proof -
  have "map id_n ns' = map id_n ns"
    using assms(2,3) by (intro nth_equalityI) simp_all
  then have d: "distinct (map id_n ns')"
    using assms(1) by simp
  have "fromNeuron ns' c = Some (ns ! i)"
    using fromNeuron_nth [OF d, of i c] assms(2,3,4,5,6) by simp
  moreover have "fromNeuron ns c = Some (ns ! i)"
    using fromNeuron_nth [OF assms(1,4,5)] .
  ultimately show ?thesis
    by (simp add: src_active_def contribution_def)
qed

lemma weighted_input_cong:
  assumes "length cs' = length cs"
    and "\<forall>j<length cs. to_c (cs' ! j) = to_c (cs ! j)"
    and "\<forall>j<length cs. to_c (cs ! j) = id_n n \<longrightarrow>
           src_active ns' (cs' ! j) = src_active ns (cs ! j) \<and>
           contribution ns' (cs' ! j) = contribution ns (cs ! j)"
  shows "weighted_input ns' cs' n = weighted_input ns cs n"
proof -
  have inc: "incomingConns cs' n = incomingConns cs n"
    using assms(1,2) by (auto simp: incomingConns_def intro: filter_cong)
  have mem: "\<forall>j\<in>set (incomingConns cs n). j < length cs \<and> to_c (cs ! j) = id_n n"
    by (simp add: incomingConns_def)
  have f: "filter (\<lambda>j. src_active ns' (cs' ! j)) (incomingConns cs n) =
           filter (\<lambda>j. src_active ns (cs ! j)) (incomingConns cs n)"
    using mem assms(3) by (intro filter_cong) auto
  have m: "map (\<lambda>j. contribution ns' (cs' ! j)) (filter (\<lambda>j. src_active ns (cs ! j)) (incomingConns cs n)) =
           map (\<lambda>j. contribution ns (cs ! j)) (filter (\<lambda>j. src_active ns (cs ! j)) (incomingConns cs n))"
    using mem assms(3) by (intro map_cong) auto
  show ?thesis
    by (simp add: weighted_input_index inc f m)
qed

lemma raw_fold_exact:
  assumes "wf_topology ns cs" and "distinct xs"
    and "\<forall>a\<in>set xs. a < length ns \<and> layer (ns ! a) = l"
  shows "length (fst (fold raw_unit xs (ns, cs))) = length ns \<and>
         length (snd (fold raw_unit xs (ns, cs))) = length cs \<and>
         (\<forall>b<length ns. fst (fold raw_unit xs (ns, cs)) ! b =
            (if b \<in> set xs
             then (ns ! b)\<lparr> activation := max 0 (weighted_input ns cs (ns ! b)) \<rparr>
             else ns ! b)) \<and>
         (\<forall>j<length cs. snd (fold raw_unit xs (ns, cs)) ! j =
            (if (\<exists>a\<in>set xs. to_c (cs ! j) = id_n (ns ! a)) \<and> src_active ns (cs ! j)
             then (cs ! j)\<lparr> active_c := True \<rparr> else cs ! j))"
  using assms(2,3)
proof (induction xs rule: rev_induct)
  case Nil
  then show ?case by simp
next
  case (snoc x xs)
  define ns1 where "ns1 = fst (fold raw_unit xs (ns, cs))"
  define cs1 where "cs1 = snd (fold raw_unit xs (ns, cs))"
  have d: "distinct (map id_n ns)"
    using assms(1) by (simp add: wf_topology_def)
  have x: "x \<notin> set xs" "x < length ns" "layer (ns ! x) = l"
    using snoc.prems by auto
  have xs: "\<forall>a\<in>set xs. a < length ns \<and> layer (ns ! a) = l" "distinct xs"
    using snoc.prems by auto
  note ih = snoc.IH [OF xs(2) xs(1), folded ns1_def cs1_def]
  have len: "length ns1 = length ns" "length cs1 = length cs"
    using ih by simp_all
  have ns1: "ns1 ! b = (if b \<in> set xs
             then (ns ! b)\<lparr> activation := max 0 (weighted_input ns cs (ns ! b)) \<rparr>
             else ns ! b)" if "b < length ns" for b
    using ih that by simp
  have cs1: "cs1 ! j = (if (\<exists>a\<in>set xs. to_c (cs ! j) = id_n (ns ! a)) \<and> src_active ns (cs ! j)
             then (cs ! j)\<lparr> active_c := True \<rparr> else cs ! j)" if "j < length cs" for j
    using ih that by simp
  have ids: "\<forall>b<length ns. id_n (ns1 ! b) = id_n (ns ! b)"
    using ns1 by simp
  have ns1x: "ns1 ! x = ns ! x"
    using ns1 [OF x(2)] x(1) by simp
  have wire: "to_c (cs1 ! j) = to_c (cs ! j)" if "j < length cs" for j
    using cs1 [OF that] by simp
  have src: "src_active ns1 (cs1 ! j) = src_active ns (cs ! j) \<and>
             contribution ns1 (cs1 ! j) = contribution ns (cs ! j)"
    if j: "j < length cs" and to: "to_c (cs ! j) = id_n (ns ! x)" for j
  proof -
    obtain i t where e: "i < length ns" "t < length ns" "id_n (ns ! i) = from_c (cs ! j)"
      "id_n (ns ! t) = to_c (cs ! j)" "layer (ns ! t) = Suc (layer (ns ! i))"
      using wf_endpoints [OF assms(1) j] by blast
    have "t = x"
      using id_unique [OF d e(2) x(2)] e(4) to by simp
    then have "layer (ns ! i) \<noteq> l"
      using e(5) x(3) by simp
    then have "i \<notin> set xs"
      using xs(1) by auto
    then have same: "ns1 ! i = ns ! i"
      using ns1 [OF e(1)] by simp
    have "src_active ns1 (cs ! j) = src_active ns (cs ! j) \<and>
          contribution ns1 (cs ! j) = contribution ns (cs ! j)"
      using src_stable [OF d len(1) ids e(1) e(3) same] .
    then show ?thesis
      using cs1 [OF j] by simp
  qed
  have w: "weighted_input ns1 cs1 (ns ! x) = weighted_input ns cs (ns ! x)"
    using len(2) wire src by (intro weighted_input_cong) simp_all
  have unfold: "fold raw_unit (xs @ [x]) (ns, cs) = raw_unit x (ns1, cs1)"
    by (simp add: ns1_def cs1_def)
  note r = raw_unit_exact [of x ns1 cs1]
  have fst_eq: "fst (raw_unit x (ns1, cs1)) =
      ns1[x := (ns ! x)\<lparr> activation := max 0 (weighted_input ns cs (ns ! x)) \<rparr>]"
    using r by (simp add: ns1x w)
  have snd_eq: "snd (raw_unit x (ns1, cs1)) ! j =
      (if to_c (cs ! j) = id_n (ns ! x) \<and> src_active ns (cs ! j)
       then (cs1 ! j)\<lparr> active_c := True \<rparr> else cs1 ! j)" if j: "j < length cs" for j
  proof (cases "to_c (cs ! j) = id_n (ns ! x)")
    case True
    then show ?thesis
      using r j len(2) src [OF j True] wire [OF j] by (simp add: ns1x)
  next
    case False
    then show ?thesis
      using r j len(2) wire [OF j] by (simp add: ns1x)
  qed
  have A: "length (fst (raw_unit x (ns1, cs1))) = length ns"
    by (simp add: fst_eq len)
  have B: "length (snd (raw_unit x (ns1, cs1))) = length cs"
    using r len by simp
  have C: "fst (raw_unit x (ns1, cs1)) ! b =
            (if b \<in> set (xs @ [x])
             then (ns ! b)\<lparr> activation := max 0 (weighted_input ns cs (ns ! b)) \<rparr>
             else ns ! b)" if "b < length ns" for b
  proof (cases "b = x")
    case True
    then show ?thesis using that len(1) by (simp add: fst_eq)
  next
    case False
    then show ?thesis using ns1 [OF that] by (simp add: fst_eq)
  qed
  have D: "snd (raw_unit x (ns1, cs1)) ! j =
            (if (\<exists>a\<in>set (xs @ [x]). to_c (cs ! j) = id_n (ns ! a)) \<and> src_active ns (cs ! j)
             then (cs ! j)\<lparr> active_c := True \<rparr> else cs ! j)" if "j < length cs" for j
    using snd_eq [OF that] cs1 [OF that] by auto
  show ?case
    unfolding unfold using A B C D by blast
qed

lemma raw_layer_exact:
  assumes "wf_topology ns cs"
  shows "length (fst (raw_layer l (ns, cs))) = length ns"
    and "length (snd (raw_layer l (ns, cs))) = length cs"
    and "\<And>b. b < length ns \<Longrightarrow> fst (raw_layer l (ns, cs)) ! b =
            (if layer (ns ! b) = l
             then (ns ! b)\<lparr> activation := max 0 (weighted_input ns cs (ns ! b)) \<rparr>
             else ns ! b)"
    and "\<And>j. j < length cs \<Longrightarrow> snd (raw_layer l (ns, cs)) ! j =
            (if (\<exists>a<length ns. layer (ns ! a) = l \<and> to_c (cs ! j) = id_n (ns ! a)) \<and>
                src_active ns (cs ! j)
             then (cs ! j)\<lparr> active_c := True \<rparr> else cs ! j)"
proof -
  have b: "\<forall>a\<in>set (currentLayerNeurons ns l). a < length ns \<and> layer (ns ! a) = l"
    by (simp add: currentLayerNeurons_props)
  note r = raw_fold_exact [OF assms currentLayerNeurons_props(1) b, folded raw_layer_def]
  have ex: "(\<exists>a\<in>set (currentLayerNeurons ns l). P a) = (\<exists>a<length ns. layer (ns ! a) = l \<and> P a)" for P
    by (auto simp: currentLayerNeurons_props)
  show "length (fst (raw_layer l (ns, cs))) = length ns"
    and "length (snd (raw_layer l (ns, cs))) = length cs"
    using r by (simp_all add: raw_layer_def)
  show "\<And>b. b < length ns \<Longrightarrow> fst (raw_layer l (ns, cs)) ! b =
            (if layer (ns ! b) = l
             then (ns ! b)\<lparr> activation := max 0 (weighted_input ns cs (ns ! b)) \<rparr>
             else ns ! b)"
    using r by (simp add: raw_layer_def currentLayerNeurons_props)
  show "\<And>j. j < length cs \<Longrightarrow> snd (raw_layer l (ns, cs)) ! j =
            (if (\<exists>a<length ns. layer (ns ! a) = l \<and> to_c (cs ! j) = id_n (ns ! a)) \<and>
                src_active ns (cs ! j)
             then (cs ! j)\<lparr> active_c := True \<rparr> else cs ! j)"
    using r by (simp add: raw_layer_def ex)
qed

section \<open>Raw activations and edges along a run\<close>

lemma wf_topology_shape:
  assumes "wf_topology ns cs"
    and "length ns' = length ns"
    and "\<forall>b<length ns. id_n (ns' ! b) = id_n (ns ! b) \<and> layer (ns' ! b) = layer (ns ! b)"
    and "map from_c cs' = map from_c cs" and "map to_c cs' = map to_c cs"
  shows "wf_topology ns' cs'"
proof -
  have len: "length cs' = length cs"
    using assms(4) by (metis length_map)
  have "map id_n ns' = map id_n ns"
    using assms(2,3) by (intro nth_equalityI) simp_all
  then have d: "distinct (map id_n ns')"
    using assms(1) by (simp add: wf_topology_def)
  have "adjacent ns' (cs' ! j)" if j: "j < length cs'" for j
  proof -
    have f: "from_c (cs' ! j) = from_c (cs ! j)"
      using assms(4) j len by (metis nth_map)
    have t: "to_c (cs' ! j) = to_c (cs ! j)"
      using assms(5) j len by (metis nth_map)
    obtain i t where e: "i < length ns" "t < length ns" "id_n (ns ! i) = from_c (cs ! j)"
      "id_n (ns ! t) = to_c (cs ! j)" "layer (ns ! t) = Suc (layer (ns ! i))"
      using wf_endpoints [OF assms(1), of j] j len by auto
    have "ns' ! i \<in> set ns'" "ns' ! t \<in> set ns'"
      using e(1,2) assms(2) by simp_all
    moreover have "id_n (ns' ! i) = from_c (cs' ! j)" "id_n (ns' ! t) = to_c (cs' ! j)"
      "layer (ns' ! t) = layer (ns' ! i) + 1"
      using e assms(3) f t by simp_all
    ultimately show ?thesis
      unfolding adjacent_def list_ex_iff by blast
  qed
  then show ?thesis
    using d by (simp add: wf_topology_def list_all_length)
qed

lemma run_wf:
  assumes "text \<noteq> []" and "\<not> isProcessing w" and "wf_topology (neurons w) (connections w)"
    and "l \<le> 6"
  shows "wf_topology (fst (run_states e text w ! l)) (snd (run_states e text w ! l))"
  using run_shape [OF assms(1,2,4), of e]
  by (intro wf_topology_shape [OF assms(3)]) simp_all

text \<open>
  Claim C7. For a layer \<open>l > 0\<close> of a run, the raw activation of each of its units is
  \<open>max(0, sum)\<close>, the sum taken over exactly the unit's incoming edges whose source was
  active in the state before the step, of the source's activation times the weight; the
  gate is applied to the units that hold these raw values, which are not clamped.
\<close>

theorem raw_activation:
  fixes e :: env and w :: world and l :: nat
  assumes "text \<noteq> []" and "\<not> isProcessing w"
    and "wf_topology (neurons w) (connections w)"
    and "toLowerCase e text \<noteq> []"
    and "0 < l" and "l < 6"
    and "b < length (neurons w)" and "layer (neurons w ! b) = l"
  defines "prior \<equiv> run_states e text w ! l"
  defines "raw \<equiv> fst (raw_layer l prior)"
  shows "activation (raw ! b) = max 0 (weighted_input (fst prior) (snd prior) (fst prior ! b)) \<and>
         fst (snd (processInput e text w) ! l) = gate_layer (sparsityLevel w) l raw"
proof -
  have le: "l \<le> 6" using assms(6) by simp
  have wf: "wf_topology (fst prior) (snd prior)"
    unfolding prior_def by (rule run_wf [OF assms(1,2,3) le])
  have sh: "length (fst prior) = length (neurons w)" "layer (fst prior ! b) = layer (neurons w ! b)"
    using run_shape [OF assms(1,2) le, of e] assms(7) by (simp_all add: prior_def)
  have "raw ! b = (fst prior ! b)\<lparr> activation :=
          max 0 (weighted_input (fst prior) (snd prior) (fst prior ! b)) \<rparr>"
    using raw_layer_exact(3) [OF wf, of b l] sh assms(7,8) by (simp add: raw_def)
  moreover have "fst (snd (processInput e text w) ! l) = gate_layer (sparsityLevel w) l raw"
    using run_hidden [OF assms(1,2,5,6), of e] processInput_length [OF assms(1,2), of e] assms(6)
    by (simp add: raw_def prior_def snapshot_nth)
  ultimately show ?thesis by simp
qed

theorem raw_activation_witness:
  "ex_text \<noteq> [] \<and> \<not> isProcessing ex_world \<and>
   wf_topology (neurons ex_world) (connections ex_world) \<and>
   toLowerCase ex_env ex_text \<noteq> [] \<and> (0::nat) < 1 \<and> (1::nat) < 6 \<and>
   3 < length (neurons ex_world) \<and> layer (neurons ex_world ! 3) = 1 \<and>
   activation (fst (raw_layer 1 (run_states ex_env ex_text ex_world ! 1)) ! 3) =
     max 0 (weighted_input (fst (run_states ex_env ex_text ex_world ! 1))
              (snd (run_states ex_env ex_text ex_world ! 1))
              (fst (run_states ex_env ex_text ex_world ! 1) ! 3)) \<and>
   activation (fst (raw_layer 1 (run_states ex_env ex_text ex_world ! 1)) ! 3) = 195 / 128 \<and>
   activation (fst (snd (processInput ex_env ex_text ex_world) ! 1) ! 3) = 1"
proof -
  have h1: "(0::nat) < 1" and h2: "(1::nat) < 6" by simp_all
  have h3: "3 < length (neurons ex_world)" by code_simp
  have h4: "layer (neurons ex_world ! 3) = 1" by code_simp
  have v: "activation (fst (raw_layer 1 (run_states ex_env ex_text ex_world ! 1)) ! 3) = 195 / 128"
    by code_simp
  have c: "activation (fst (snd (processInput ex_env ex_text ex_world) ! 1) ! 3) = 1"
    by code_simp
  from raw_activation [OF ex_text_nonempty ex_world_idle ex_world_wf ex_lower_nonempty h1 h2 h3 h4]
  show ?thesis
    using ex_text_nonempty ex_world_idle ex_world_wf ex_lower_nonempty h1 h2 h3 h4 v c by blast
qed

text \<open>Edges and their sources along a run.\<close>

lemma run_edges:
  assumes "text \<noteq> []" and "\<not> isProcessing w" and "wf_topology (neurons w) (connections w)"
    and "l \<le> 6"
  shows "(\<forall>a<length (neurons w). l \<le> layer (neurons w ! a) \<longrightarrow>
            \<not> active_n (fst (run_states e text w ! l) ! a)) \<and>
         (\<forall>j<length (connections w). \<forall>i<length (neurons w).
            id_n (neurons w ! i) = from_c (connections w ! j) \<longrightarrow>
            active_c (snd (run_states e text w ! l) ! j) =
              (active_n (fst (run_states e text w ! l) ! i) \<and> Suc (layer (neurons w ! i)) < l))"
  using assms(4)
proof (induction l)
  case 0
  show ?case
    by (simp add: run_first(1) [OF assms(1,2)] reset_state_def reset_neurons_def
        reset_connections_def)
next
  case (Suc l)
  then have l: "l < 6" "l \<le> 6" by simp_all
  define ns where "ns = fst (run_states e text w ! l)"
  define cs where "cs = snd (run_states e text w ! l)"
  define ns' where "ns' = fst (run_states e text w ! Suc l)"
  define cs' where "cs' = snd (run_states e text w ! Suc l)"
  note ih = Suc.IH [OF l(2), folded ns_def cs_def]
  note sh = run_shape [OF assms(1,2) l(2), of e, folded ns_def cs_def]
  have wf: "wf_topology ns cs"
    unfolding ns_def cs_def by (rule run_wf [OF assms(1,2,3) l(2)])
  have d: "distinct (map id_n ns)"
    using wf by (simp add: wf_topology_def)
  have own: "ns' ! a = ns ! a" if "a < length (neurons w)" "layer (neurons w ! a) \<noteq> l" for a
    unfolding ns'_def ns_def by (rule run_own_layer [OF assms(1,2) l(1) that])
  have from_eq: "from_c (cs ! j) = from_c (connections w ! j)"
    and to_eq: "to_c (cs ! j) = to_c (connections w ! j)" if "j < length (connections w)" for j
    using sh that by (metis nth_map)+
  have B: "\<not> active_n (ns' ! a)" if "a < length (neurons w)" "Suc l \<le> layer (neurons w ! a)" for a
    using own [of a] ih that by simp
  have C: "active_c (cs' ! j) = (active_n (ns' ! i) \<and> Suc (layer (neurons w ! i)) < Suc l)"
    if j: "j < length (connections w)" and i: "i < length (neurons w)"
      and src: "id_n (neurons w ! i) = from_c (connections w ! j)" for j i
  proof -
    have old: "active_c (cs ! j) = (active_n (ns ! i) \<and> Suc (layer (neurons w ! i)) < l)"
      using ih j i src by simp
    show ?thesis
    proof (cases "l = 0")
      case True
      have "run_states e text w ! Suc 0 =
              snd (layer_step e (sparsityLevel w) (tokenize e text) 0 (draws w, reset_state w))"
        by (rule run_first(2) [OF assms(1,2)])
      moreover have "run_states e text w ! 0 = reset_state w"
        by (rule run_first(1) [OF assms(1,2)])
      ultimately have "cs' = cs"
        unfolding cs'_def cs_def True
        by (cases "reset_state w") (simp add: layer_step_input)
      then show ?thesis using old True by simp
    next
      case False
      then have pos: "0 < l" by simp
      have cs': "cs' = snd (raw_layer l (ns, cs))"
        using run_hidden [OF assms(1,2) pos l(1), of e] by (simp add: cs'_def ns_def cs_def)
      have jl: "j < length cs" and il: "i < length ns"
        using sh j i by simp_all
      have idi: "id_n (ns ! i) = from_c (cs ! j)"
        using sh i src from_eq [OF j] by simp
      have sa: "src_active ns (cs ! j) = active_n (ns ! i)"
        using fromNeuron_nth [OF d il idi] by (simp add: src_active_def)
      obtain i' t where e: "i' < length ns" "t < length ns" "id_n (ns ! i') = from_c (cs ! j)"
        "id_n (ns ! t) = to_c (cs ! j)" "layer (ns ! t) = Suc (layer (ns ! i'))"
        using wf_endpoints [OF wf jl] by blast
      have "i' = i"
        using id_unique [OF d e(1) il] e(3) idi by simp
      then have lt: "layer (ns ! t) = Suc (layer (neurons w ! i))"
        using e(5) sh i by simp
      have tgt: "(\<exists>a<length ns. layer (ns ! a) = l \<and> to_c (cs ! j) = id_n (ns ! a)) =
                 (Suc (layer (neurons w ! i)) = l)"
      proof
        assume "\<exists>a<length ns. layer (ns ! a) = l \<and> to_c (cs ! j) = id_n (ns ! a)"
        then obtain a where a: "a < length ns" "layer (ns ! a) = l" "to_c (cs ! j) = id_n (ns ! a)"
          by blast
        have "a = t"
          using id_unique [OF d a(1) e(2)] a(3) e(4) by simp
        then show "Suc (layer (neurons w ! i)) = l"
          using a(2) lt by simp
      next
        assume "Suc (layer (neurons w ! i)) = l"
        then show "\<exists>a<length ns. layer (ns ! a) = l \<and> to_c (cs ! j) = id_n (ns ! a)"
          using e(2,4) lt by auto
      qed
      have new: "active_c (cs' ! j) =
                   (if Suc (layer (neurons w ! i)) = l \<and> active_n (ns ! i) then True
                    else active_c (cs ! j))"
        unfolding cs' using raw_layer_exact(4) [OF wf jl, of l] by (simp add: tgt sa)
      show ?thesis
      proof (cases "layer (neurons w ! i) = l")
        case True
        then show ?thesis using new old by simp
      next
        case False
        then have "ns' ! i = ns ! i" using own [OF i] by simp
        then show ?thesis using new old by auto
      qed
    qed
  qed
  show ?case
    using B C by (simp add: ns'_def cs'_def)
qed

text \<open>
  Claim C3. In every snapshot of a run, an edge is active if and only if its source
  unit was active in the state before the snapshot's step, that is, in the snapshot of
  the layer before (for layer 0, in the reset state, where nothing is active).
\<close>

theorem edge_active_iff_source_was_active:
  assumes "text \<noteq> []" and "\<not> isProcessing w"
    and "wf_topology (neurons w) (connections w)"
    and "l < 6" and "j < length (connections w)"
  shows "active_c (snd (snd (processInput e text w) ! l) ! j) =
           src_active (fst (run_states e text w ! l)) (connections w ! j) \<and>
         (\<forall>c\<in>set (snd (run_states e text w ! 0)). \<not> active_c c) \<and>
         (\<forall>n\<in>set (fst (run_states e text w ! 0)). \<not> active_n n)"
proof -
  have le: "l \<le> 6" "Suc l \<le> 6" using assms(4) by simp_all
  define ns where "ns = fst (run_states e text w ! l)"
  define ns' where "ns' = fst (run_states e text w ! Suc l)"
  define cs' where "cs' = snd (run_states e text w ! Suc l)"
  note sh = run_shape [OF assms(1,2) le(1), of e, folded ns_def]
  have wf: "wf_topology ns (snd (run_states e text w ! l))"
    unfolding ns_def by (rule run_wf [OF assms(1,2,3) le(1)])
  have d: "distinct (map id_n ns)"
    using wf by (simp add: wf_topology_def)
  obtain i t where e: "i < length (neurons w)" "id_n (neurons w ! i) = from_c (connections w ! j)"
    using wf_endpoints [OF assms(3,5)] by blast
  have il: "i < length ns" and idi: "id_n (ns ! i) = from_c (connections w ! j)"
    using sh e by simp_all
  have sa: "src_active ns (connections w ! j) = active_n (ns ! i)"
    using fromNeuron_nth [OF d il idi] by (simp add: src_active_def)
  have new: "active_c (cs' ! j) = (active_n (ns' ! i) \<and> layer (neurons w ! i) < l)"
    using run_edges [OF assms(1,2,3) le(2), of e] assms(5) e by (simp add: ns'_def cs'_def)
  have eq: "active_c (cs' ! j) = active_n (ns ! i)"
  proof (cases "layer (neurons w ! i) < l")
    case True
    then have "ns' ! i = ns ! i"
      unfolding ns'_def ns_def using run_own_layer [OF assms(1,2,4) e(1), of e] by simp
    then show ?thesis using new True by simp
  next
    case False
    then have "\<not> active_n (ns ! i)"
      using run_edges [OF assms(1,2,3) le(1), of e] e(1) by (simp add: ns_def)
    then show ?thesis using new False by simp
  qed
  have snap: "snd (processInput e text w) ! l = run_states e text w ! Suc l"
    using processInput_length [OF assms(1,2), of e] assms(4) by (simp add: snapshot_nth)
  have reset: "(\<forall>c\<in>set (snd (run_states e text w ! 0)). \<not> active_c c) \<and>
         (\<forall>n\<in>set (fst (run_states e text w ! 0)). \<not> active_n n)"
    by (auto simp: run_first(1) [OF assms(1,2)] reset_state_def reset_neurons_def
        reset_connections_def)
  show ?thesis
    using eq sa reset by (simp add: snap cs'_def ns_def)
qed

theorem edge_active_iff_source_was_active_witness:
  "ex_text \<noteq> [] \<and> \<not> isProcessing ex_world \<and>
   wf_topology (neurons ex_world) (connections ex_world) \<and>
   (1::nat) < 6 \<and> 0 < length (connections ex_world) \<and>
   active_c (snd (snd (processInput ex_env ex_text ex_world) ! 1) ! 0) =
     src_active (fst (run_states ex_env ex_text ex_world ! 1)) (connections ex_world ! 0) \<and>
   active_c (snd (snd (processInput ex_env ex_text ex_world) ! 1) ! 0) \<and>
   \<not> active_c (snd (snd (processInput ex_env ex_text ex_world) ! 0) ! 0)"
proof -
  have h1: "(1::nat) < 6" by simp
  have h2: "0 < length (connections ex_world)" by code_simp
  have a: "active_c (snd (snd (processInput ex_env ex_text ex_world) ! 1) ! 0)" by code_simp
  have b: "\<not> active_c (snd (snd (processInput ex_env ex_text ex_world) ! 0) ! 0)" by code_simp
  from edge_active_iff_source_was_active [OF ex_text_nonempty ex_world_idle ex_world_wf h1 h2, of ex_env]
  show ?thesis
    using ex_text_nonempty ex_world_idle ex_world_wf h1 h2 a b by blast
qed

section \<open>Neuron ids\<close>

lemma digit_char_inj:
  assumes "d < 10" and "d' < 10" and "digit_char d = digit_char d'"
  shows "d = d'"
proof -
  have "distinct ''0123456789''" by simp
  then show ?thesis
    using assms nth_eq_iff_index_eq [of "''0123456789''" d d'] by (simp add: digit_char_def)
qed

lemma digit_char_digit: "d < 10 \<Longrightarrow> digit_char d \<in> set ''0123456789''"
  unfolding digit_char_def by (rule nth_mem) simp

lemma Number_toString_nonempty: "Number_toString n \<noteq> []"
  by (subst Number_toString.simps) simp

lemma Number_toString_digits: "set (Number_toString n) \<subseteq> set ''0123456789''"
proof (induction n rule: Number_toString.induct)
  case (1 n)
  show ?case
  proof (cases "n < 10")
    case True
    then show ?thesis
      using digit_char_digit [of n] by (subst Number_toString.simps) simp
  next
    case False
    have "n mod 10 < 10" by simp
    then have "digit_char (n mod 10) \<in> set ''0123456789''"
      by (rule digit_char_digit)
    then show ?thesis
      using False "1.IH" by (subst Number_toString.simps) simp
  qed
qed

lemma Number_toString_single: "length (Number_toString n) = Suc 0 \<longleftrightarrow> n < 10"
proof (cases "n < 10")
  case True
  then show ?thesis by (subst Number_toString.simps) simp
next
  case False
  have "Number_toString (n div 10) \<noteq> []"
    by (rule Number_toString_nonempty)
  then have "length (Number_toString (n div 10)) \<noteq> 0"
    by simp
  then show ?thesis
    using False by (subst Number_toString.simps) simp
qed

lemma Number_toString_inj: "Number_toString m = Number_toString n \<Longrightarrow> m = n"
proof (induction m arbitrary: n rule: Number_toString.induct)
  case (1 m)
  show ?case
  proof (cases "m < 10")
    case True
    then have "length (Number_toString m) = Suc 0"
      by (simp add: Number_toString_single)
    then have n: "n < 10"
      using "1.prems" by (simp add: Number_toString_single)
    have "[digit_char m] = [digit_char n]"
      using "1.prems" True n by (subst (asm) (1 2) Number_toString.simps) simp
    then show ?thesis
      using digit_char_inj [OF True n] by simp
  next
    case False
    then have "length (Number_toString m) \<noteq> Suc 0"
      by (simp add: Number_toString_single)
    then have n: "\<not> n < 10"
      using "1.prems" by (simp add: Number_toString_single)
    have "Number_toString (m div 10) @ [digit_char (m mod 10)] =
          Number_toString (n div 10) @ [digit_char (n mod 10)]"
      using "1.prems" False n by (subst (asm) (1 2) Number_toString.simps) simp
    then have a: "Number_toString (m div 10) = Number_toString (n div 10)"
      and b: "digit_char (m mod 10) = digit_char (n mod 10)"
      by simp_all
    have "m div 10 = n div 10"
      using "1.IH" [OF False a] .
    moreover have "m mod 10 = n mod 10"
      using digit_char_inj [OF _ _ b] by simp
    ultimately show ?thesis
      by (metis div_mult_mod_eq)
  qed
qed

lemma split_at_mark:
  assumes "xs @ c # ys = xs' @ c # ys'" and "c \<notin> set xs" and "c \<notin> set xs'"
  shows "xs = xs' \<and> ys = ys'"
proof -
  have "takeWhile (\<lambda>x. x \<noteq> c) (xs @ c # ys) = xs"
    using assms(2) by (subst takeWhile_append2) auto
  moreover have "takeWhile (\<lambda>x. x \<noteq> c) (xs' @ c # ys') = xs'"
    using assms(3) by (subst takeWhile_append2) auto
  ultimately have "xs = xs'"
    using assms(1) by simp
  then show ?thesis
    using assms(1) by simp
qed

lemma neuron_id_inj:
  assumes "neuron_id l i = neuron_id l' i'"
  shows "l = l' \<and> i = i'"
proof -
  have m: "CHR ''-'' \<notin> set (Number_toString k)" for k
    using Number_toString_digits [of k] by auto
  have "Number_toString l @ CHR ''-'' # (CHR ''N'' # Number_toString i) =
        Number_toString l' @ CHR ''-'' # (CHR ''N'' # Number_toString i')"
    using assms by (simp add: neuron_id_def)
  then have "Number_toString l = Number_toString l' \<and>
             CHR ''N'' # Number_toString i = CHR ''N'' # Number_toString i'"
    using m by (intro split_at_mark) simp_all
  then show ?thesis
    by (simp add: Number_toString_inj)
qed

section \<open>The neurons of a layer\<close>

lemma new_neuron_fields [simp]:
  "layer (new_neuron L l c i) = l" "id_n (new_neuron L l c i) = neuron_id l i"
  "\<not> active_n (new_neuron L l c i)" "activation (new_neuron L l c i) = 0"
  by (simp_all add: new_neuron_def)

lemma filter_const: "filter (\<lambda>_. b) xs = (if b then xs else [])"
  by (induction xs) simp_all

lemma filter_layer_block:
  "filter (\<lambda>n. layer n = l) (map (new_neuron L li c) [0..<c]) =
     (if li = l then map (new_neuron L li c) [0..<c] else [])"
  by (simp add: filter_map comp_def filter_const)

lemma filter_layer_blocks:
  "filter (\<lambda>n. layer n = l)
     (concat (map (\<lambda>(li, c). map (new_neuron L li c) [0..<c]) (enumerate n layers))) =
   (if n \<le> l \<and> l < n + length layers
    then map (new_neuron L l (layers ! (l - n))) [0..<layers ! (l - n)] else [])"
proof (induction layers arbitrary: n)
  case Nil
  then show ?case by simp
next
  case (Cons c layers)
  consider "l < n" | "l = n" | "n < l" by linarith
  then show ?case
  proof cases
    case 1
    then show ?thesis using Cons.IH [of "Suc n"] by (simp add: filter_layer_block)
  next
    case 2
    then show ?thesis using Cons.IH [of "Suc n"] by (simp add: filter_layer_block)
  next
    case 3
    then have "l - n = Suc (l - Suc n)" by simp
    then show ?thesis using 3 Cons.IH [of "Suc n"] by (simp add: filter_layer_block)
  qed
qed

lemma layer_of_create_neurons:
  "filter (\<lambda>n. layer n = l) (create_neurons layers) =
     (if l < length layers then map (new_neuron layers l (layers ! l)) [0..<layers ! l] else [])"
  using filter_layer_blocks [of l layers 0 layers] by (simp add: create_neurons_def)

lemma create_neurons_mem:
  assumes "n \<in> set (create_neurons layers)"
  shows "\<exists>l i. l < length layers \<and> i < layers ! l \<and> n = new_neuron layers l (layers ! l) i"
proof -
  have "n \<in> set (filter (\<lambda>m. layer m = layer n) (create_neurons layers))"
    using assms by simp
  then obtain i where "layer n < length layers" "i < layers ! layer n"
    "n = new_neuron layers (layer n) (layers ! layer n) i"
    unfolding layer_of_create_neurons by (auto split: if_splits)
  then show ?thesis by blast
qed

lemma create_neurons_nth_mem:
  assumes "l < length layers" and "i < layers ! l"
  shows "new_neuron layers l (layers ! l) i \<in> set (create_neurons layers)"
proof -
  have "new_neuron layers l (layers ! l) i \<in>
          set (filter (\<lambda>m. layer m = l) (create_neurons layers))"
    unfolding layer_of_create_neurons using assms by simp
  then show ?thesis by simp
qed

lemma distinct_layer_ids: "distinct (map (neuron_id l) [0..<c])"
  using neuron_id_inj by (auto simp: distinct_map intro!: inj_onI)

lemma blocks_ids:
  "distinct (map id_n
     (concat (map (\<lambda>(li, c). map (new_neuron L li c) [0..<c]) (enumerate n layers)))) \<and>
   (\<forall>x\<in>set (concat (map (\<lambda>(li, c). map (new_neuron L li c) [0..<c]) (enumerate n layers))).
      n \<le> layer x)"
proof (induction layers arbitrary: n)
  case Nil
  then show ?case by simp
next
  case (Cons c layers)
  let ?rest = "concat (map (\<lambda>(li, c). map (new_neuron L li c) [0..<c]) (enumerate (Suc n) layers))"
  have ih: "distinct (map id_n ?rest)" "\<forall>x\<in>set ?rest. Suc n \<le> layer x"
    using Cons.IH [of "Suc n"] by simp_all
  have ids: "map id_n (map (new_neuron L n c) [0..<c]) = map (neuron_id n) [0..<c]"
    by simp
  have disj: "set (map (neuron_id n) [0..<c]) \<inter> set (map id_n ?rest) = {}"
  proof (rule ccontr)
    assume "set (map (neuron_id n) [0..<c]) \<inter> set (map id_n ?rest) \<noteq> {}"
    then obtain y where y1: "y \<in> set (map (neuron_id n) [0..<c])"
      and y2: "y \<in> set (map id_n ?rest)"
      by blast
    from y1 obtain i where i: "y = neuron_id n i"
      by auto
    from y2 obtain x where "x \<in> set ?rest" "id_n x = y"
      unfolding set_map by blast
    with i have x: "x \<in> set ?rest" "id_n x = neuron_id n i"
      by simp_all
    have "x \<in> set (filter (\<lambda>m. layer m = layer x) ?rest)"
      using x(1) by simp
    then obtain i' where "x = new_neuron L (layer x) (layers ! (layer x - Suc n)) i'"
      unfolding filter_layer_blocks by (auto split: if_splits)
    then have "id_n x = neuron_id (layer x) i'"
      by (metis new_neuron_fields(2))
    then have "layer x = n"
      using x(2) neuron_id_inj by metis
    moreover have "Suc n \<le> layer x"
      using ih(2) x(1) by blast
    ultimately show False
      by simp
  qed
  have unf: "concat (map (\<lambda>(li, c). map (new_neuron L li c) [0..<c]) (enumerate n (c # layers))) =
             map (new_neuron L n c) [0..<c] @ ?rest"
    by simp
  have d: "distinct (map id_n (map (new_neuron L n c) [0..<c] @ ?rest))"
    unfolding map_append distinct_append ids
    using ih(1) disj distinct_layer_ids [of n c] by blast
  have "n \<le> layer x" if "x \<in> set (map (new_neuron L n c) [0..<c] @ ?rest)" for x
  proof -
    have "x \<in> set (map (new_neuron L n c) [0..<c]) \<or> x \<in> set ?rest"
      using that by simp
    then show ?thesis
    proof
      assume "x \<in> set (map (new_neuron L n c) [0..<c])"
      then show ?thesis by auto
    next
      assume "x \<in> set ?rest"
      then have "Suc n \<le> layer x" using ih(2) by blast
      then show ?thesis by simp
    qed
  qed
  then show ?case
    unfolding unf using d by blast
qed

lemma create_neurons_distinct: "distinct (map id_n (create_neurons layers))"
  using blocks_ids [of layers 0 layers] by (simp add: create_neurons_def)

section \<open>The connections of a built topology\<close>

lemma push_fold:
  "fold (push_connection e f) ts (p, cl) =
     (p + length ts,
      cl @ map (\<lambda>(q, t). \<lparr> from_c = id_n f, to_c = id_n t,
                            weight = Math_random e q * 2 - 1, active_c = False \<rparr>)
             (enumerate p ts))"
  by (induction ts arbitrary: p cl) (simp_all add: push_connection_def)

lemma connect_neuron_block:
  assumes "random_ok e" and "sort_ok e"
  shows "\<exists>blk. snd (connect_neuron e nxt f (p, cl)) = cl @ blk \<and>
           length blk = min 8 (length nxt) \<and>
           (\<forall>c\<in>set blk. from_c c = id_n f \<and> - 1 \<le> weight c \<and> weight c \<le> 1 \<and> \<not> active_c c) \<and>
           set (map to_c blk) \<subseteq> id_n ` set nxt \<and>
           (distinct (map id_n nxt) \<longrightarrow> distinct (map to_c blk))"
proof -
  obtain shuffled p' where s: "sort_shuffled e p nxt = (shuffled, p')"
    by (cases "sort_shuffled e p nxt") auto
  have "mset (fst (sort_shuffled e p nxt)) = mset nxt"
    using assms(2) unfolding sort_ok_def by blast
  then have perm: "mset shuffled = mset nxt"
    by (simp add: s)
  define ts where "ts = take (min 8 (length nxt)) shuffled"
  define blk where "blk = map (\<lambda>(q, t). \<lparr> from_c = id_n f, to_c = id_n t,
                            weight = Math_random e q * 2 - 1, active_c = False \<rparr>)
             (enumerate p' ts)"
  have len_sh: "length shuffled = length nxt"
    using perm by (rule mset_eq_length)
  have 1: "snd (connect_neuron e nxt f (p, cl)) = cl @ blk"
    by (simp add: connect_neuron_def s Let_def push_fold blk_def ts_def)
  have 2: "length blk = min 8 (length nxt)"
    by (simp add: blk_def ts_def len_sh)
  have 3: "from_c c = id_n f \<and> - 1 \<le> weight c \<and> weight c \<le> 1 \<and> \<not> active_c c"
    if "c \<in> set blk" for c
  proof -
    have w: "- 1 \<le> Math_random e q * 2 - 1 \<and> Math_random e q * 2 - 1 \<le> 1" for q
    proof -
      have "0 \<le> Math_random e q \<and> Math_random e q < 1"
        using assms(1) by (simp add: random_ok_def)
      then show ?thesis by simp
    qed
    from that obtain qt where "qt \<in> set (enumerate p' ts)"
      and c: "c = (case qt of (q, t) \<Rightarrow> \<lparr> from_c = id_n f, to_c = id_n t,
                            weight = Math_random e q * 2 - 1, active_c = False \<rparr>)"
      unfolding blk_def set_map by blast
    show ?thesis
      using w [of "fst qt"] by (simp add: c case_prod_unfold)
  qed
  have to: "map to_c blk = map id_n ts"
  proof -
    have "map to_c blk = map (id_n \<circ> snd) (enumerate p' ts)"
      by (simp add: blk_def comp_def case_prod_unfold)
    also have "\<dots> = map id_n (map snd (enumerate p' ts))"
      by (simp only: map_map)
    also have "\<dots> = map id_n ts"
      by (simp only: map_snd_enumerate)
    finally show ?thesis .
  qed
  have "set ts \<subseteq> set nxt"
    using set_take_subset [of "min 8 (length nxt)" shuffled] mset_eq_setD [OF perm]
    by (simp add: ts_def)
  then have 4: "set (map to_c blk) \<subseteq> id_n ` set nxt"
    by (auto simp: to)
  have 5: "distinct (map to_c blk)" if d: "distinct (map id_n nxt)"
  proof -
    have "mset (map id_n shuffled) = mset (map id_n nxt)"
      using perm by (metis mset_map)
    then have "distinct (map id_n shuffled)"
      using d by (metis mset_eq_imp_distinct_iff)
    then have "distinct (take (min 8 (length nxt)) (map id_n shuffled))"
      by (rule distinct_take)
    then show ?thesis
      by (simp add: to ts_def take_map)
  qed
  show ?thesis
    using 1 2 3 4 5 by blast
qed

lemma processed_step: "processed li m l i \<Longrightarrow> processed li (Suc m) l i"
  by (auto simp: processed_def)

lemma topo_step:
  assumes "random_ok e" and "sort_ok e" and "topo_inv layers li m cl"
    and "Suc li < length layers" and "m < layers ! li"
  shows "topo_inv layers li (Suc m)
           (snd (connect_neuron e
                   (map (new_neuron layers (Suc li) (layers ! Suc li)) [0..<layers ! Suc li])
                   (new_neuron layers li (layers ! li) m) (p, cl)))"
proof -
  let ?nxt = "map (new_neuron layers (Suc li) (layers ! Suc li)) [0..<layers ! Suc li]"
  let ?f = "new_neuron layers li (layers ! li) m"
  have dn: "distinct (map id_n ?nxt)"
    using distinct_layer_ids [of "Suc li" "layers ! Suc li"] by (simp add: comp_def)
  obtain blk where b: "snd (connect_neuron e ?nxt ?f (p, cl)) = cl @ blk"
    "length blk = min 8 (layers ! Suc li)"
    "\<And>c. c \<in> set blk \<Longrightarrow> from_c c = neuron_id li m \<and> - 1 \<le> weight c \<and> weight c \<le> 1 \<and> \<not> active_c c"
    "set (map to_c blk) \<subseteq> id_n ` set ?nxt"
    "distinct (map to_c blk)"
    using connect_neuron_block [OF assms(1,2), of ?nxt ?f p cl] dn by auto
  have old: "\<And>c. c \<in> set cl \<Longrightarrow> built_edge layers li m c"
    "\<And>l i. processed li m l i \<Longrightarrow> Suc l < length layers \<Longrightarrow> i < layers ! l \<Longrightarrow>
       out_degree_ok layers cl l i"
    using assms(3) by (auto simp: topo_inv_def)
  have cl_other: "from_c c \<noteq> neuron_id li m" if "c \<in> set cl" for c
  proof -
    have "built_edge layers li m c"
      using that by (rule old(1))
    then obtain l i where "processed li m l i" "from_c c = neuron_id l i"
      unfolding built_edge_def by blast
    then show ?thesis
      using neuron_id_inj [of l i li m] by (auto simp: processed_def)
  qed
  have edges: "built_edge layers li (Suc m) c" if "c \<in> set (cl @ blk)" for c
  proof (cases "c \<in> set cl")
    case True
    then show ?thesis
      using old(1) [OF True] processed_step unfolding built_edge_def by blast
  next
    case False
    then have c: "c \<in> set blk" using that by simp
    have "to_c c \<in> id_n ` set ?nxt"
      using b(4) c by auto
    then obtain i' where "i' < layers ! Suc li" "to_c c = neuron_id (Suc li) i'"
      by auto
    moreover have "processed li (Suc m) li m"
      by (simp add: processed_def)
    ultimately show ?thesis
      using b(3) [OF c] assms(4,5) unfolding built_edge_def by blast
  qed
  have deg: "out_degree_ok layers (cl @ blk) l i"
    if pr: "processed li (Suc m) l i" and l: "Suc l < length layers" and i: "i < layers ! l" for l i
  proof (cases "l = li \<and> i = m")
    case True
    have "filter (\<lambda>c. from_c c = neuron_id li m) cl = []"
      using cl_other by (simp add: filter_empty_conv)
    moreover have "filter (\<lambda>c. from_c c = neuron_id li m) blk = blk"
      using b(3) by (simp add: filter_id_conv)
    ultimately show ?thesis
      using True b(2,5) by (simp add: out_degree_ok_def)
  next
    case False
    then have pr': "processed li m l i"
      using pr by (auto simp: processed_def)
    have "neuron_id l i \<noteq> neuron_id li m"
      using False neuron_id_inj [of l i li m] by auto
    then have "filter (\<lambda>c. from_c c = neuron_id l i) blk = []"
      using b(3) by (auto simp: filter_empty_conv)
    then show ?thesis
      using old(2) [OF pr' l i] by (simp add: out_degree_ok_def)
  qed
  show ?thesis
    unfolding b(1) topo_inv_def using edges deg by blast
qed

lemma topo_layer:
  assumes "random_ok e" and "sort_ok e" and "topo_inv layers li 0 cl"
    and "Suc li < length layers" and "m \<le> layers ! li"
  shows "topo_inv layers li m
           (snd (fold (connect_neuron e
                   (map (new_neuron layers (Suc li) (layers ! Suc li)) [0..<layers ! Suc li]))
                 (map (new_neuron layers li (layers ! li)) [0..<m]) (p, cl)))"
  using assms(5)
proof (induction m)
  case 0
  then show ?case using assms(3) by simp
next
  case (Suc m)
  let ?nxt = "map (new_neuron layers (Suc li) (layers ! Suc li)) [0..<layers ! Suc li]"
  obtain p1 cl1 where st: "fold (connect_neuron e ?nxt)
      (map (new_neuron layers li (layers ! li)) [0..<m]) (p, cl) = (p1, cl1)"
    by (cases "fold (connect_neuron e ?nxt)
      (map (new_neuron layers li (layers ! li)) [0..<m]) (p, cl)") auto
  have inv: "topo_inv layers li m cl1"
    using Suc st by simp
  have m: "m < layers ! li" using Suc.prems by simp
  show ?case
    using topo_step [OF assms(1,2) inv assms(4) m, of p1] st by simp
qed

lemma topo_next:
  assumes "topo_inv layers li m cl" and "Suc li < length layers \<longrightarrow> m = layers ! li"
  shows "topo_inv layers (Suc li) 0 cl"
proof -
  have e: "built_edge layers (Suc li) 0 c" if "c \<in> set cl" for c
  proof -
    have "built_edge layers li m c"
      using assms(1) that by (simp add: topo_inv_def)
    then show ?thesis
      unfolding built_edge_def processed_def by (metis less_Suc_eq)
  qed
  have d: "out_degree_ok layers cl l i"
    if "processed (Suc li) 0 l i" "Suc l < length layers" "i < layers ! l" for l i
  proof -
    have "l < li \<or> l = li"
      using that(1) by (auto simp: processed_def)
    then have "processed li m l i"
    proof
      assume "l < li"
      then show ?thesis by (simp add: processed_def)
    next
      assume "l = li"
      then show ?thesis
        using that(2,3) assms(2) by (simp add: processed_def)
    qed
    then show ?thesis
      using assms(1) that by (simp add: topo_inv_def)
  qed
  show ?thesis
    unfolding topo_inv_def using e d by blast
qed

lemma topo_connect_layer:
  assumes "random_ok e" and "sort_ok e" and "topo_inv layers li 0 cl" and "li < length layers"
  shows "topo_inv layers (Suc li) 0
           (snd (connect_layer e layers (create_neurons layers) li (p, cl)))"
proof (cases "Suc li < length layers")
  case True
  have cur: "filter (\<lambda>n. layer n = li) (create_neurons layers) =
             map (new_neuron layers li (layers ! li)) [0..<layers ! li]"
    using assms(4) by (simp add: layer_of_create_neurons)
  have nxt: "filter (\<lambda>n. layer n = Suc li) (create_neurons layers) =
             map (new_neuron layers (Suc li) (layers ! Suc li)) [0..<layers ! Suc li]"
    using True by (simp add: layer_of_create_neurons)
  have "li < length layers - 1" using True by simp
  then have eq: "connect_layer e layers (create_neurons layers) li (p, cl) =
        fold (connect_neuron e
                   (map (new_neuron layers (Suc li) (layers ! Suc li)) [0..<layers ! Suc li]))
                 (map (new_neuron layers li (layers ! li)) [0..<layers ! li]) (p, cl)"
    by (simp add: connect_layer_def Let_def cur nxt)
  have "topo_inv layers li (layers ! li)
          (snd (connect_layer e layers (create_neurons layers) li (p, cl)))"
    unfolding eq by (rule topo_layer [OF assms(1,2,3) True]) simp
  then show ?thesis
    by (rule topo_next) simp
next
  case False
  then have "\<not> li < length layers - 1" by simp
  then have "connect_layer e layers (create_neurons layers) li (p, cl) = (p, cl)"
    by (simp add: connect_layer_def)
  then show ?thesis
    using topo_next [OF assms(3)] False by simp
qed

lemma topo_layers:
  assumes "random_ok e" and "sort_ok e" and "n \<le> length layers"
  shows "topo_inv layers n 0
           (snd (fold (connect_layer e layers (create_neurons layers)) [0..<n] (p, [])))"
  using assms(3)
proof (induction n)
  case 0
  show ?case by (simp add: topo_inv_def processed_def)
next
  case (Suc n)
  obtain p1 cl1 where st:
    "fold (connect_layer e layers (create_neurons layers)) [0..<n] (p, []) = (p1, cl1)"
    by (cases "fold (connect_layer e layers (create_neurons layers)) [0..<n] (p, [])") auto
  have inv: "topo_inv layers n 0 cl1"
    using Suc st by simp
  have n: "n < length layers" using Suc.prems by simp
  show ?case
    using topo_connect_layer [OF assms(1,2) inv n, of p1] st by simp
qed

lemma topo_created:
  assumes "random_ok e" and "sort_ok e"
  shows "topo_inv layers (length layers) 0
           (snd (create_connections e layers (create_neurons layers) p))"
  unfolding create_connections_def by (rule topo_layers [OF assms]) simp

lemma built_edges:
  assumes "random_ok e" and "sort_ok e"
    and "c \<in> set (snd (create_connections e layers (create_neurons layers) p))"
  shows "\<exists>l i i'. Suc l < length layers \<and> i < layers ! l \<and> i' < layers ! Suc l \<and>
           from_c c = neuron_id l i \<and> to_c c = neuron_id (Suc l) i' \<and>
           - 1 \<le> weight c \<and> weight c \<le> 1 \<and> \<not> active_c c"
proof -
  have "built_edge layers (length layers) 0 c"
    using topo_created [OF assms(1,2), of layers p] assms(3) by (simp add: topo_inv_def)
  then show ?thesis
    unfolding built_edge_def by blast
qed

lemma built_wf:
  assumes "random_ok e" and "sort_ok e"
  shows "wf_topology (create_neurons layers)
           (snd (create_connections e layers (create_neurons layers) p))"
proof -
  let ?ns = "create_neurons layers"
  let ?cs = "snd (create_connections e layers ?ns p)"
  have "adjacent ?ns c" if c: "c \<in> set ?cs" for c
  proof -
    obtain l i i' where e: "Suc l < length layers" "i < layers ! l" "i' < layers ! Suc l"
      "from_c c = neuron_id l i" "to_c c = neuron_id (Suc l) i'"
      using built_edges [OF assms c] by blast
    let ?f = "new_neuron layers l (layers ! l) i"
    let ?t = "new_neuron layers (Suc l) (layers ! Suc l) i'"
    have "?f \<in> set ?ns" "?t \<in> set ?ns"
      using e(1,2,3) by (simp_all add: create_neurons_nth_mem)
    moreover have "id_n ?f = from_c c" "id_n ?t = to_c c" "layer ?t = layer ?f + 1"
      using e(4,5) by simp_all
    ultimately show ?thesis
      unfolding adjacent_def list_ex_iff by blast
  qed
  then show ?thesis
    by (simp add: wf_topology_def create_neurons_distinct list_all_iff)
qed

text \<open>The network that the component builds is well-formed.\<close>

lemma init_network_wf:
  assumes "random_ok e" and "sort_ok e"
  shows "wf_topology (neurons (render (init_network e layers w)))
           (connections (render (init_network e layers w)))"
  using built_wf [OF assms, of layers "draws w"]
  by (auto simp: init_network_def render_def Let_def split: prod.splits)

text \<open>
  Claim C6. In every built topology, a unit of a layer that is not the last has exactly
  \<open>min(8, size of the next layer)\<close> outgoing edges, to distinct units of the next layer;
  a unit of the last layer has none; every edge leads from a unit to a unit of the next
  layer; and every weight lies between -1 and 1.
\<close>

theorem built_topology:
  fixes e :: env and layers :: "nat list" and p :: nat
  assumes "random_ok e" and "sort_ok e"
  defines "ns \<equiv> create_neurons layers"
  defines "cs \<equiv> snd (create_connections e layers ns p)"
  shows "(\<forall>l<length layers. length (filter (\<lambda>n. layer n = l) ns) = layers ! l) \<and>
         (\<forall>u\<in>set ns. Suc (layer u) < length layers \<longrightarrow>
            length (filter (\<lambda>c. from_c c = id_n u) cs) =
              min 8 (length (filter (\<lambda>n. layer n = Suc (layer u)) ns)) \<and>
            distinct (map to_c (filter (\<lambda>c. from_c c = id_n u) cs)) \<and>
            (\<forall>c\<in>set (filter (\<lambda>c. from_c c = id_n u) cs).
               \<exists>t\<in>set ns. layer t = Suc (layer u) \<and> to_c c = id_n t)) \<and>
         (\<forall>u\<in>set ns. \<not> Suc (layer u) < length layers \<longrightarrow>
            filter (\<lambda>c. from_c c = id_n u) cs = []) \<and>
         (\<forall>c\<in>set cs. - 1 \<le> weight c \<and> weight c \<le> 1) \<and>
         wf_topology ns cs"
proof -
  have size: "length (filter (\<lambda>n. layer n = l) ns) = layers ! l" if "l < length layers" for l
    using that by (simp add: ns_def layer_of_create_neurons)
  have inv: "topo_inv layers (length layers) 0 cs"
    unfolding cs_def ns_def by (rule topo_created [OF assms(1,2)])
  have unit: "\<exists>l i. l < length layers \<and> i < layers ! l \<and> layer u = l \<and> id_n u = neuron_id l i"
    if u: "u \<in> set ns" for u
  proof -
    obtain l i where li: "l < length layers" "i < layers ! l"
      "u = new_neuron layers l (layers ! l) i"
      using create_neurons_mem [of u layers] u unfolding ns_def by blast
    then have "layer u = l" "id_n u = neuron_id l i"
      by simp_all
    with li(1,2) show ?thesis by blast
  qed
  have edge: "\<exists>l i i'. Suc l < length layers \<and> i < layers ! l \<and> i' < layers ! Suc l \<and>
           from_c c = neuron_id l i \<and> to_c c = neuron_id (Suc l) i' \<and>
           - 1 \<le> weight c \<and> weight c \<le> 1 \<and> \<not> active_c c" if c: "c \<in> set cs" for c
    using built_edges [OF assms(1,2), of c layers p] c by (simp add: ns_def cs_def)
  have out: "length (filter (\<lambda>c. from_c c = id_n u) cs) =
              min 8 (length (filter (\<lambda>n. layer n = Suc (layer u)) ns)) \<and>
            distinct (map to_c (filter (\<lambda>c. from_c c = id_n u) cs)) \<and>
            (\<forall>c\<in>set (filter (\<lambda>c. from_c c = id_n u) cs).
               \<exists>t\<in>set ns. layer t = Suc (layer u) \<and> to_c c = id_n t)"
    if u: "u \<in> set ns" and nl: "Suc (layer u) < length layers" for u
  proof -
    obtain l i where li: "l < length layers" "i < layers ! l" "layer u = l" "id_n u = neuron_id l i"
      using unit [OF u] by blast
    have "processed (length layers) 0 l i"
      using li(1) by (simp add: processed_def)
    then have "out_degree_ok layers cs l i"
      using inv nl li by (simp add: topo_inv_def)
    then have a: "length (filter (\<lambda>c. from_c c = id_n u) cs) =
              min 8 (length (filter (\<lambda>n. layer n = Suc (layer u)) ns))"
      and b: "distinct (map to_c (filter (\<lambda>c. from_c c = id_n u) cs))"
      using size [OF nl] li by (simp_all add: out_degree_ok_def)
    have c: "\<exists>t\<in>set ns. layer t = Suc (layer u) \<and> to_c c = id_n t"
      if cf: "c \<in> set (filter (\<lambda>c. from_c c = id_n u) cs)" for c
    proof -
      have cc: "c \<in> set cs" "from_c c = neuron_id l i"
        using cf li(4) by simp_all
      obtain l' j j' where e: "Suc l' < length layers" "j' < layers ! Suc l'"
        "from_c c = neuron_id l' j" "to_c c = neuron_id (Suc l') j'"
        using edge [OF cc(1)] by blast
      have "l' = l"
        using neuron_id_inj [of l' j l i] e(3) cc(2) by simp
      then have "new_neuron layers (Suc l) (layers ! Suc l) j' \<in> set ns"
        using e(1,2) by (simp add: ns_def create_neurons_nth_mem)
      moreover have "layer (new_neuron layers (Suc l) (layers ! Suc l) j') = Suc (layer u)"
        "to_c c = id_n (new_neuron layers (Suc l) (layers ! Suc l) j')"
        using e(4) li(3) \<open>l' = l\<close> by simp_all
      ultimately show ?thesis by blast
    qed
    show ?thesis using a b c by blast
  qed
  have last: "filter (\<lambda>c. from_c c = id_n u) cs = []"
    if u: "u \<in> set ns" and nl: "\<not> Suc (layer u) < length layers" for u
  proof -
    obtain l i where li: "layer u = l" "id_n u = neuron_id l i"
      using unit [OF u] by blast
    have "from_c c \<noteq> id_n u" if c: "c \<in> set cs" for c
    proof
      assume eq: "from_c c = id_n u"
      obtain l' j where e: "Suc l' < length layers" "from_c c = neuron_id l' j"
        using edge [OF c] by blast
      have "l' = l"
        using neuron_id_inj [of l' j l i] e(2) eq li(2) by simp
      then show False
        using e(1) nl li(1) by simp
    qed
    then show ?thesis
      by (simp add: filter_empty_conv)
  qed
  have w: "- 1 \<le> weight c \<and> weight c \<le> 1" if "c \<in> set cs" for c
    using edge [OF that] by blast
  have wf: "wf_topology ns cs"
    unfolding ns_def cs_def by (rule built_wf [OF assms(1,2)])
  show ?thesis
    using size out last w wf by blast
qed

lemma ex_sort_ok: "sort_ok ex_env"
  by (simp add: sort_ok_def ex_env_def)

theorem built_topology_witness:
  "random_ok ex_env \<and> sort_ok ex_env \<and>
   length (filter (\<lambda>c. from_c c = ''L0-N0'')
     (snd (create_connections ex_env [2, 2] (create_neurons [2, 2]) 0))) = 2 \<and>
   map to_c (filter (\<lambda>c. from_c c = ''L0-N0'')
     (snd (create_connections ex_env [2, 2] (create_neurons [2, 2]) 0))) = [''L1-N1'', ''L1-N0''] \<and>
   wf_topology (create_neurons [2, 2])
     (snd (create_connections ex_env [2, 2] (create_neurons [2, 2]) 0))"
proof -
  have a: "length (filter (\<lambda>c. from_c c = ''L0-N0'')
     (snd (create_connections ex_env [2, 2] (create_neurons [2, 2]) 0))) = 2"
    by code_simp
  have b: "map to_c (filter (\<lambda>c. from_c c = ''L0-N0'')
     (snd (create_connections ex_env [2, 2] (create_neurons [2, 2]) 0))) = [''L1-N1'', ''L1-N0'']"
    by code_simp
  from built_topology [OF ex_random_ok ex_sort_ok, of "[2, 2]" 0]
  show ?thesis
    using ex_random_ok ex_sort_ok a b by blast
qed

end
